theory Spec2Isabelle
  imports Complex_Main "HOL-Library.Log_Nat"
begin

section \<open>JavaScript numbers\<close>

text \<open>
  The carousel computes with JavaScript numbers, which are IEEE doubles. This section and
  the next read the arithmetic of the source over exact rational numbers: while the index
  and the targets are of moderate size, every value that occurs is an integer or an integer
  plus one half (the item count divided by two), and on such values double arithmetic is
  exact. A later section repeats the operations with every arithmetic result rounded as
  doubles are, and the two readings are proved to agree on moderate numbers. The one
  non-finite value that the code can then produce is NaN (a remainder by zero, when the
  carousel has no items); it is modelled as \<open>None\<close>.
\<close>

type_synonym jsnum = "rat option"

definition trunc :: "rat \<Rightarrow> int" where
  "trunc q = (if 0 \<le> q then \<lfloor>q\<rfloor> else \<lceil>q\<rceil>)"

text \<open>The operator \<^verbatim>\<open>n % m\<close>: the remainder takes the sign of the dividend; NaN when \<open>m = 0\<close>.\<close>

definition js_rem :: "rat \<Rightarrow> rat \<Rightarrow> jsnum" where
  "js_rem n m = (if m = 0 then None else Some (n - m * of_int (trunc (n / m))))"

text \<open>\<^verbatim>\<open>const mod = (n, m) => ((n % m) + m) % m;\<close>\<close>

definition mod_js :: "jsnum \<Rightarrow> rat \<Rightarrow> jsnum" where
  "mod_js n m =
     (case n of
        None \<Rightarrow> None
      | Some x \<Rightarrow> (case js_rem x m of None \<Rightarrow> None | Some r \<Rightarrow> js_rem (r + m) m))"

section \<open>The carousel\<close>

text \<open>
  An element is represented by its class list, a set of class names. The fields follow the
  constructor of \<^verbatim>\<open>Slider3D\<close>; \<open>view_index\<close> is the number written to the custom property
  \<^verbatim>\<open>--view-index\<close> of the root element, \<open>nextBtn\<close> and \<open>prevBtn\<close> say whether the control
  exists, and \<open>touchStartX = None\<close> stands for \<^verbatim>\<open>null\<close>.
\<close>

record slider =
  items :: "string set list"
  indicators :: "string set list"
  nextBtn :: bool
  prevBtn :: bool
  index :: jsnum
  pressedKeys :: "string set"
  touchStartX :: "rat option"
  touchCurrentX :: rat
  swipeThreshold :: rat
  view_index :: jsnum

text \<open>\<^verbatim>\<open>_normalize(number)\<close>: \<^verbatim>\<open>mod(number + halfItems, totalItems) - halfItems\<close>.\<close>

definition normalize_js :: "slider \<Rightarrow> jsnum \<Rightarrow> jsnum" where
  "normalize_js s number =
     (let totalItems = of_nat (length (items s));
          halfItems = totalItems / 2
      in map_option (\<lambda>r. r - halfItems)
           (mod_js (map_option (\<lambda>x. x + halfItems) number) totalItems))"

text \<open>
  The test \<^verbatim>\<open>Math.abs(this.index) > total * Math.ceil(100 / total)\<close>. A comparison with NaN
  is false; with no items the right-hand side is \<^verbatim>\<open>0 * Infinity\<close>, which is NaN.
\<close>

definition rewrap_bound :: "rat \<Rightarrow> rat" where
  "rewrap_bound n = n * of_int \<lceil>100 / n\<rceil>"

definition exceeds_bound :: "jsnum \<Rightarrow> rat \<Rightarrow> bool" where
  "exceeds_bound i n =
     (case i of None \<Rightarrow> False | Some x \<Rightarrow> n \<noteq> 0 \<and> \<bar>x\<bar> > rewrap_bound n)"

text \<open>
  \<^verbatim>\<open>els[pos]?.classList.add(c)\<close>: an array has an element at \<open>pos\<close> only when \<open>pos\<close> is an
  integer from \<open>0\<close> to \<open>length - 1\<close>; otherwise the lookup is \<^verbatim>\<open>undefined\<close> and nothing
  happens.
\<close>

definition add_class_at :: "jsnum \<Rightarrow> string \<Rightarrow> string set list \<Rightarrow> string set list" where
  "add_class_at pos c els =
     (case pos of
        None \<Rightarrow> els
      | Some q \<Rightarrow>
          if of_int \<lfloor>q\<rfloor> = q \<and> 0 \<le> q \<and> q < of_nat (length els)
          then els[nat \<lfloor>q\<rfloor> := insert c (els ! nat \<lfloor>q\<rfloor>)]
          else els)"

definition update :: "slider \<Rightarrow> slider" where
  "update s =
     (let total = of_nat (length (items s));
          current = mod_js (index s) total;
          next = mod_js (map_option (\<lambda>i. i + 1) (index s)) total;
          previous = mod_js (map_option (\<lambda>i. i - 1) (index s)) total;
          index' = (if exceeds_bound (index s) total then current else index s);
          cleared = map (\<lambda>cl. cl - {''in-view'', ''next-item'', ''previous-item''}) (items s);
          items' = add_class_at previous ''previous-item''
                     (add_class_at next ''next-item''
                       (add_class_at current ''in-view'' cleared));
          indicators' = add_class_at current ''active''
                          (map (\<lambda>cl. cl - {''active''}) (indicators s))
      in s\<lparr>index := index', view_index := index', items := items',
            indicators := indicators'\<rparr>)"

text \<open>\<^verbatim>\<open>goTo(index)\<close>: the target is a finite number.\<close>

definition goTo :: "rat \<Rightarrow> slider \<Rightarrow> slider" where
  "goTo target s =
     (let distance = map_option (\<lambda>i. target - i) (index s);
          distance = normalize_js s distance
      in update (s\<lparr>index := (case index s of
                                 None \<Rightarrow> None
                               | Some i \<Rightarrow> map_option (\<lambda>d. i + d) distance)\<rparr>))"

text \<open>
  \<^verbatim>\<open>next()\<close> and \<^verbatim>\<open>prev()\<close> call \<^verbatim>\<open>goTo(this.index + 1)\<close> and \<^verbatim>\<open>goTo(this.index - 1)\<close>.
  With a NaN index the target is NaN, and so is the new index.
\<close>

definition next_js :: "slider \<Rightarrow> slider" where
  "next_js s = (case index s of None \<Rightarrow> update s | Some i \<Rightarrow> goTo (i + 1) s)"

definition prev_js :: "slider \<Rightarrow> slider" where
  "prev_js s = (case index s of None \<Rightarrow> update s | Some i \<Rightarrow> goTo (i - 1) s)"

subsection \<open>Input handlers\<close>

text \<open>A keyboard event is given by its \<^verbatim>\<open>key\<close>.\<close>

definition handleKeyDown :: "string \<Rightarrow> slider \<Rightarrow> slider" where
  "handleKeyDown key s =
     (if key \<in> pressedKeys s then s
      else let s' = s\<lparr>pressedKeys := insert key (pressedKeys s)\<rparr>
           in if key = ''ArrowLeft'' then prev_js s'
              else if key = ''ArrowRight'' then next_js s'
              else s')"

definition handleKeyUp :: "string \<Rightarrow> slider \<Rightarrow> slider" where
  "handleKeyUp key s = s\<lparr>pressedKeys := pressedKeys s - {key}\<rparr>"




definition handleTouchCancel :: "slider \<Rightarrow> slider" where
  "handleTouchCancel s = s\<lparr>touchStartX := None, touchCurrentX := 0\<rparr>"

subsection \<open>Construction\<close>

text \<open>
  The root element is given by what the constructor reads from it: the class lists of the
  elements matching \<^verbatim>\<open>.item\<close> and \<^verbatim>\<open>.slider-indicators [data-slide-to]\<close>, and whether the
  two controls exist. The argument of the constructor is a string, an element, or any other
  value; \<^verbatim>\<open>document.querySelector\<close> is a parameter, \<open>None\<close> when no element matches.
\<close>

record html_element =
  item_els :: "string set list"
  indicator_els :: "string set list"
  has_next :: bool
  has_prev :: bool

datatype root_arg = Str string | Elem html_element | Other

datatype error = NoElementMatches string | InvalidRoot

text \<open>
  An event listener is recorded as the object it is attached to and the name of the event.
  The list of all registered listeners is the part of the page that \<^verbatim>\<open>_bindEvents\<close> changes.
\<close>

datatype event_target = NextBtn | PrevBtn | Indicator nat | Document | Root

type_synonym listener = "event_target \<times> string"

definition bindEvents :: "slider \<Rightarrow> listener list \<Rightarrow> listener list" where
  "bindEvents s ls =
     ls @ (if nextBtn s then [(NextBtn, ''click'')] else [])
        @ (if prevBtn s then [(PrevBtn, ''click'')] else [])
        @ map (\<lambda>i. (Indicator i, ''click'')) [0..<length (indicators s)]
        @ [(Document, ''keydown''), (Document, ''keyup''),
           (Root, ''touchstart''), (Root, ''touchmove''),
           (Root, ''touchend''), (Root, ''touchcancel'')]"

text \<open>The fields as the constructor sets them, before \<^verbatim>\<open>_bindEvents\<close> and \<^verbatim>\<open>update\<close>.\<close>

definition init_fields :: "html_element \<Rightarrow> slider" where
  "init_fields el =
     \<lparr>items = item_els el, indicators = indicator_els el,
      nextBtn = has_next el, prevBtn = has_prev el,
      index = Some 0, pressedKeys = {},
      touchStartX = None, touchCurrentX = 0, swipeThreshold = 30,
      view_index = None\<rparr>"

definition resolve_root :: "(string \<Rightarrow> html_element option) \<Rightarrow> root_arg \<Rightarrow> error + html_element" where
  "resolve_root querySelector root_arg =
     (case root_arg of
        Str sel \<Rightarrow>
          (case querySelector sel of
             None \<Rightarrow> Inl (NoElementMatches sel)
           | Some el \<Rightarrow> Inr el)
      | Elem el \<Rightarrow> Inr el
      | Other \<Rightarrow> Inl InvalidRoot)"

text \<open>
  The constructor takes the listeners registered so far and returns the error or the new
  carousel, together with the listeners registered afterwards.
\<close>

definition Slider3D ::
  "(string \<Rightarrow> html_element option) \<Rightarrow> root_arg \<Rightarrow> listener list
     \<Rightarrow> (error + slider) \<times> listener list" where
  "Slider3D querySelector root_arg ls =
     (case resolve_root querySelector root_arg of
        Inl e \<Rightarrow> (Inl e, ls)
      | Inr el \<Rightarrow> (Inr (update (init_fields el)), bindEvents (init_fields el) ls))"

subsection \<open>Sequences of calls and observations\<close>

datatype command = Next | Prev | GoTo int

fun exec :: "command \<Rightarrow> slider \<Rightarrow> slider" where
  "exec Next s = next_js s"
| "exec Prev s = prev_js s"
| "exec (GoTo b) s = goTo (of_int b) s"

definition run :: "command list \<Rightarrow> slider \<Rightarrow> slider" where
  "run cs s = foldl (\<lambda>s c. exec c s) s cs"

text \<open>The positions of the elements that carry class \<open>c\<close>.\<close>

definition flagged :: "string \<Rightarrow> string set list \<Rightarrow> nat list" where
  "flagged c els = filter (\<lambda>i. c \<in> els ! i) [0..<length els]"

text \<open>A root with \<open>n\<close> items and \<open>n\<close> indicators and both controls, used in examples.\<close>

definition plain_root :: "nat \<Rightarrow> html_element" where
  "plain_root n =
     \<lparr>item_els = replicate n {''item''}, indicator_els = replicate n {},
      has_next = True, has_prev = True\<rparr>"

text \<open>The carousel that the constructor returns for \<open>plain_root n\<close>.\<close>

definition example_slider :: "nat \<Rightarrow> slider" where
  "example_slider n = update (init_fields (plain_root n))"


section \<open>The carousel in double arithmetic\<close>

text \<open>
  The definitions above read the arithmetic of the source over exact numbers. The code
  computes in IEEE doubles: the result of every addition, subtraction, multiplication and
  division is rounded to 53 significant bits, to the nearest such number and to the one
  with an even last bit when two are equally near. \<open>fl\<close> is that rounding; \<open>expo x\<close> is the
  exponent of \<open>x\<close>, the integer \<open>e\<close> with \<open>2\<^sup>e \<le> |x| < 2\<^sup>e\<^sup>+\<^sup>1\<close>. The exponent range is not
  limited: on doubles no operation of the carousel has a result below the normal range
  that needs rounding, and the one result that can leave the range of the doubles, the
  difference in \<^verbatim>\<open>goTo\<close>, is treated there. The remainder operator is exact on doubles.

  The following definitions repeat the operations of the carousel with every arithmetic
  result rounded. The two readings agree as long as the numbers are integers or integers
  plus one half of moderate size; they differ for targets from about \<open>2\<^sup>5\<^sup>2\<close> on.
\<close>

definition expo :: "rat \<Rightarrow> int" where
  "expo x =
     (let (p, q) = quotient_of \<bar>x\<bar>;
          d = bitlen p - bitlen q
      in if 2 powi d \<le> \<bar>x\<bar> then d else d - 1)"

definition round_even :: "rat \<Rightarrow> int" where
  "round_even y =
     (let f = \<lfloor>y\<rfloor>;
          r = y - of_int f
      in if r < 1 / 2 then f
         else if 1 / 2 < r then f + 1
         else if even f then f else f + 1)"

definition fl :: "rat \<Rightarrow> rat" where
  "fl x =
     (if x = 0 then 0
      else 2 powi (expo x - 52) * of_int (round_even (x / 2 powi (expo x - 52))))"

text \<open>\<^verbatim>\<open>mod\<close>, with the sum \<^verbatim>\<open>(n % m) + m\<close> rounded.\<close>

definition mod_d :: "jsnum \<Rightarrow> rat \<Rightarrow> jsnum" where
  "mod_d n m =
     (case n of
        None \<Rightarrow> None
      | Some x \<Rightarrow> (case js_rem x m of None \<Rightarrow> None | Some r \<Rightarrow> js_rem (fl (r + m)) m))"

definition normalize_d :: "slider \<Rightarrow> jsnum \<Rightarrow> jsnum" where
  "normalize_d s number =
     (let totalItems = of_nat (length (items s));
          halfItems = fl (totalItems / 2)
      in map_option (\<lambda>r. fl (r - halfItems))
           (mod_d (map_option (\<lambda>x. fl (x + halfItems)) number) totalItems))"

definition rewrap_bound_d :: "rat \<Rightarrow> rat" where
  "rewrap_bound_d n = fl (n * of_int \<lceil>fl (100 / n)\<rceil>)"

definition exceeds_bound_d :: "jsnum \<Rightarrow> rat \<Rightarrow> bool" where
  "exceeds_bound_d i n =
     (case i of None \<Rightarrow> False | Some x \<Rightarrow> n \<noteq> 0 \<and> \<bar>x\<bar> > rewrap_bound_d n)"

definition update_d :: "slider \<Rightarrow> slider" where
  "update_d s =
     (let total = of_nat (length (items s));
          current = mod_d (index s) total;
          next = mod_d (map_option (\<lambda>i. fl (i + 1)) (index s)) total;
          previous = mod_d (map_option (\<lambda>i. fl (i - 1)) (index s)) total;
          index' = (if exceeds_bound_d (index s) total then current else index s);
          cleared = map (\<lambda>cl. cl - {''in-view'', ''next-item'', ''previous-item''}) (items s);
          items' = add_class_at previous ''previous-item''
                     (add_class_at next ''next-item''
                       (add_class_at current ''in-view'' cleared));
          indicators' = add_class_at current ''active''
                          (map (\<lambda>cl. cl - {''active''}) (indicators s))
      in s\<lparr>index := index', view_index := index', items := items',
            indicators := indicators'\<rparr>)"

text \<open>
  The difference \<^verbatim>\<open>index - this.index\<close> of two doubles of opposite sign can exceed the
  range of the doubles. It is then an infinity, its remainder is NaN, and so is the new
  index; \<open>in_range\<close> goes to NaN at once.
\<close>

definition in_range :: "rat \<Rightarrow> jsnum" where
  "in_range x = (if \<bar>x\<bar> < 2 ^ 1024 then Some x else None)"

definition goTo_d :: "rat \<Rightarrow> slider \<Rightarrow> slider" where
  "goTo_d target s =
     (let distance = (case index s of None \<Rightarrow> None | Some i \<Rightarrow> in_range (fl (target - i)));
          distance = normalize_d s distance
      in update_d (s\<lparr>index := (case index s of
                                   None \<Rightarrow> None
                                 | Some i \<Rightarrow> map_option (\<lambda>d. fl (i + d)) distance)\<rparr>))"

definition next_d :: "slider \<Rightarrow> slider" where
  "next_d s = (case index s of None \<Rightarrow> update_d s | Some i \<Rightarrow> goTo_d (fl (i + 1)) s)"

definition prev_d :: "slider \<Rightarrow> slider" where
  "prev_d s = (case index s of None \<Rightarrow> update_d s | Some i \<Rightarrow> goTo_d (fl (i - 1)) s)"

definition Slider3D_d ::
  "(string \<Rightarrow> html_element option) \<Rightarrow> root_arg \<Rightarrow> listener list
     \<Rightarrow> (error + slider) \<times> listener list" where
  "Slider3D_d querySelector root_arg ls =
     (case resolve_root querySelector root_arg of
        Inl e \<Rightarrow> (Inl e, ls)
      | Inr el \<Rightarrow> (Inr (update_d (init_fields el)), bindEvents (init_fields el) ls))"

fun exec_d :: "command \<Rightarrow> slider \<Rightarrow> slider" where
  "exec_d Next s = next_d s"
| "exec_d Prev s = prev_d s"
| "exec_d (GoTo b) s = goTo_d (of_int b) s"

definition run_d :: "command list \<Rightarrow> slider \<Rightarrow> slider" where
  "run_d cs s = foldl (\<lambda>s c. exec_d c s) s cs"

text \<open>A call whose target, if it has one, has absolute value at most \<open>2\<^sup>5\<^sup>0\<close>.\<close>

fun moderate :: "command \<Rightarrow> bool" where
  "moderate (GoTo b) = (\<bar>b\<bar> \<le> 2 ^ 50)"
| "moderate Next = True"
| "moderate Prev = True"

section \<open>The card toggler\<close>

text \<open>
  A concept card is its class list and the elements that \<^verbatim>\<open>$card.find(".variables")\<close>
  returns; of each such element the model keeps the \<^verbatim>\<open>scrollHeight\<close> property and the
  inline style \<^verbatim>\<open>max-height\<close>.
\<close>

record region =
  scrollHeight :: nat
  max_height :: string

record card =
  classes :: "string set"
  variables :: "region list"

text \<open>The decimal rendering of a number, as string concatenation produces it.\<close>

fun toString :: "nat \<Rightarrow> string" where
  "toString n =
     (if n < 10 then [''0123456789'' ! n]
      else toString (n div 10) @ [''0123456789'' ! (n mod 10)])"

declare toString.simps [simp del]

text \<open>
  \<^verbatim>\<open>.prop\<close> reads from the first matched element and is \<^verbatim>\<open>undefined\<close> when there
  is none; \<^verbatim>\<open>.css\<close> writes to every matched element.
\<close>

definition expandCard :: "card \<Rightarrow> card" where
  "expandCard c =
     (let contentHeight =
            (case variables c of [] \<Rightarrow> ''undefined'' | r # _ \<Rightarrow> toString (scrollHeight r))
      in c\<lparr>classes := insert ''expanded'' (classes c),
           variables := map (\<lambda>r. r\<lparr>max_height := contentHeight @ ''px''\<rparr>) (variables c)\<rparr>)"

definition collapseCard :: "card \<Rightarrow> card" where
  "collapseCard c =
     c\<lparr>classes := classes c - {''expanded''},
       variables := map (\<lambda>r. r\<lparr>max_height := ''0px''\<rparr>) (variables c)\<rparr>"

definition toggleCard :: "card \<Rightarrow> card" where
  "toggleCard c = (if ''expanded'' \<in> classes c then collapseCard c else expandCard c)"

text \<open>
  The two click handlers. In \<^verbatim>\<open>index.js\<close> the click is accepted only when the card nearest
  to the click target is the card of the handler (cards are told apart by a number); the
  other variant accepts every click.
\<close>

definition shouldHandleClick :: "nat option \<Rightarrow> nat \<Rightarrow> bool" where
  "shouldHandleClick closest card_id = (closest = Some card_id)"

definition on_click_guarded :: "nat option \<Rightarrow> nat \<Rightarrow> card \<Rightarrow> card" where
  "on_click_guarded closest card_id c =
     (if shouldHandleClick closest card_id then toggleCard c else c)"

definition on_click :: "card \<Rightarrow> card" where
  "on_click c = toggleCard c"

text \<open>A collapsed card whose content region has scroll height 120 and no inline style yet.\<close>

definition example_card :: card where
  "example_card =
     \<lparr>classes = {''concept-card''},
      variables = [\<lparr>scrollHeight = 120, max_height = []\<rparr>]\<rparr>"

section \<open>Auxiliary facts\<close>

subsection \<open>The remainder operators\<close>

lemma trunc_of_unit: "0 \<le> t \<Longrightarrow> t < 1 \<Longrightarrow> trunc (t + 1) = 1"
  unfolding trunc_def by (simp add: floor_eq_iff)

lemma js_rem_pos:
  assumes "0 < m" "0 \<le> x"
  shows "js_rem x m = Some (x - m * of_int \<lfloor>x / m\<rfloor>)"
  using assms by (simp add: js_rem_def trunc_def)

lemma floor_rem_bounds:
  fixes x m :: rat
  assumes "0 < m"
  shows "0 \<le> x - m * of_int \<lfloor>x / m\<rfloor>" "x - m * of_int \<lfloor>x / m\<rfloor> < m"
proof -
  have a: "of_int \<lfloor>x / m\<rfloor> \<le> x / m" by simp
  have b: "x / m < of_int \<lfloor>x / m\<rfloor> + 1" by linarith
  have e: "x / m * m = x" using assms by simp
  have "of_int \<lfloor>x / m\<rfloor> * m \<le> x / m * m"
    using a assms by (intro mult_right_mono) simp_all
  with e show "0 \<le> x - m * of_int \<lfloor>x / m\<rfloor>" by (simp add: mult.commute)
  have "x / m * m < (of_int \<lfloor>x / m\<rfloor> + 1) * m"
    using b assms by (intro mult_strict_right_mono) simp_all
  with e show "x - m * of_int \<lfloor>x / m\<rfloor> < m" by (simp add: algebra_simps)
qed

lemma js_rem_small:
  assumes "0 < m" "0 \<le> r" "r < m"
  shows "js_rem (r + m) m = Some r"
proof -
  have "(r + m) / m = r / m + 1" using assms by (simp add: add_divide_distrib)
  moreover have "0 \<le> r / m" "r / m < 1" using assms by simp_all
  ultimately have "trunc ((r + m) / m) = 1" using trunc_of_unit by simp
  then show ?thesis using assms by (simp add: js_rem_def)
qed

lemma mod_js_floor:
  assumes "0 < m"
  shows "mod_js (Some x) m = Some (x - m * of_int \<lfloor>x / m\<rfloor>)"
proof (cases "0 \<le> x")
  case True
  have "js_rem x m = Some (x - m * of_int \<lfloor>x / m\<rfloor>)"
    using assms True by (rule js_rem_pos)
  moreover have "js_rem (x - m * of_int \<lfloor>x / m\<rfloor> + m) m = Some (x - m * of_int \<lfloor>x / m\<rfloor>)"
    using assms floor_rem_bounds[OF assms, of x] by (rule js_rem_small)
  ultimately show ?thesis by (simp only: mod_js_def option.case)
next
  case False
  then have neg: "x / m < 0" using assms by (simp add: divide_neg_pos)
  then have r: "js_rem x m = Some (x - m * of_int \<lceil>x / m\<rceil>)"
    using assms by (simp add: js_rem_def trunc_def)
  show ?thesis
  proof (cases "of_int \<lfloor>x / m\<rfloor> = x / m")
    case True
    then have c: "\<lceil>x / m\<rceil> = \<lfloor>x / m\<rfloor>" by (metis ceiling_of_int)
    have "m * of_int \<lfloor>x / m\<rfloor> = m * (x / m)" by (simp only: True)
    also have "\<dots> = x" using assms by simp
    finally have z: "x - m * of_int \<lfloor>x / m\<rfloor> = 0" by simp
    show ?thesis using assms r c z js_rem_small[of m 0]
      by (simp add: mod_js_def)
  next
    case False
    then have c: "\<lceil>x / m\<rceil> = \<lfloor>x / m\<rfloor> + 1"
      by (metis ceiling_altdef)
    let ?r = "x - m * of_int \<lfloor>x / m\<rfloor>"
    have "0 \<le> ?r" "?r < m" using floor_rem_bounds[OF assms, of x] by simp_all
    moreover have "?r \<noteq> 0" using False assms by (auto simp: field_simps)
    ultimately have "0 < ?r / m" "?r / m < 1" using assms by simp_all
    then have t: "trunc (?r / m) = 0" unfolding trunc_def by (simp add: floor_eq_iff)
    have e: "x - m * of_int \<lceil>x / m\<rceil> = ?r - m" by (simp add: c algebra_simps)
    have "js_rem ?r m = Some ?r" using assms t by (simp add: js_rem_def)
    then have "js_rem (?r - m + m) m = Some ?r" by simp
    with r e show ?thesis by (simp only: mod_js_def option.case)
  qed
qed

lemma mod_js_bounds:
  assumes "0 < m"
  shows "\<exists>r. mod_js (Some x) m = Some r \<and> 0 \<le> r \<and> r < m"
  using floor_rem_bounds[OF assms, of x] by (simp add: mod_js_floor[OF assms])

lemma mod_js_int:
  assumes "0 < n"
  shows "mod_js (Some (of_int k)) (of_nat n) = Some (of_int (k mod int n))"
proof -
  have f: "\<lfloor>rat_of_int k / rat_of_nat n\<rfloor> = k div int n"
    using floor_divide_of_int_eq[of k "int n", where ?'a = rat] by simp
  have "rat_of_int k - of_nat n * of_int (k div int n) = of_int (k - int n * (k div int n))"
    by simp
  also have "k - int n * (k div int n) = k mod int n"
    by (simp add: minus_mult_div_eq_mod)
  finally show ?thesis using assms by (simp add: mod_js_floor f)
qed

lemma mod_js_shift:
  assumes "0 < m"
  shows "mod_js (Some (x - m * of_int j)) m = mod_js (Some x) m"
proof -
  have "(x - m * of_int j) / m = x / m - of_int j"
    using assms by (simp add: diff_divide_distrib)
  then have fl: "\<lfloor>(x - m * of_int j) / m\<rfloor> = \<lfloor>x / m\<rfloor> - j" by simp
  have "x - m * of_int j - m * of_int (\<lfloor>x / m\<rfloor> - j) = x - m * of_int \<lfloor>x / m\<rfloor>"
    by (simp add: algebra_simps)
  then show ?thesis by (simp only: mod_js_floor[OF assms] fl)
qed

subsection \<open>Class lists\<close>

lemma length_add_class_at [simp]: "length (add_class_at pos c els) = length els"
  by (simp add: add_class_at_def split: option.splits)

lemma nth_add_class_at:
  assumes "i < length els"
  shows "add_class_at pos c els ! i =
           (if pos = Some (of_nat i) then insert c (els ! i) else els ! i)"
proof (cases pos)
  case None
  then show ?thesis by (simp add: add_class_at_def)
next
  case (Some q)
  show ?thesis
  proof (cases "of_int \<lfloor>q\<rfloor> = q \<and> 0 \<le> q \<and> q < of_nat (length els)")
    case True
    then have q: "q = of_nat (nat \<lfloor>q\<rfloor>)" by (metis of_int_of_nat_eq of_nat_nat zero_le_floor)
    then have "q = of_nat i \<longleftrightarrow> nat \<lfloor>q\<rfloor> = i" by (metis of_nat_eq_iff)
    moreover have "nat \<lfloor>q\<rfloor> < length els" using True q by (metis of_nat_less_iff)
    ultimately show ?thesis using Some True assms
      by (auto simp: add_class_at_def)
  next
    case False
    have "of_int \<lfloor>rat_of_nat i\<rfloor> = rat_of_nat i" by simp
    with False have "q \<noteq> of_nat i" using assms by (metis of_nat_0_le_iff of_nat_less_iff)
    moreover have "add_class_at pos c els = els"
      unfolding add_class_at_def Some option.case by (simp only: False if_False)
    ultimately show ?thesis using Some by simp
  qed
qed

lemma map_remove_add_class_at:
  assumes "c \<in> R"
  shows "map (\<lambda>cl. cl - R) (add_class_at pos c els) = map (\<lambda>cl. cl - R) els"
  using assms by (auto simp: list_eq_iff_nth_eq nth_add_class_at)

lemma filter_eq_upt:
  assumes "j < n"
  shows "filter (\<lambda>i. i = j) [0..<n] = [j]"
  using assms
proof (induction n)
  case 0
  then show ?case by simp
next
  case (Suc n)
  show ?case
  proof (cases "j = n")
    case True
    have "filter (\<lambda>i. i = n) [0..<n] = []" by (simp add: filter_empty_conv)
    with True show ?thesis by simp
  next
    case False
    with Suc show ?thesis by simp
  qed
qed

lemma flagged_single:
  assumes "j < length els" "\<And>i. i < length els \<Longrightarrow> c \<in> els ! i \<longleftrightarrow> i = j"
  shows "flagged c els = [j]"
proof -
  have "filter (\<lambda>i. c \<in> els ! i) [0..<length els] = filter (\<lambda>i. i = j) [0..<length els]"
    by (rule filter_cong) (simp_all add: assms(2))
  then show ?thesis by (simp add: flagged_def filter_eq_upt[OF assms(1)])
qed

subsection \<open>What update does\<close>

lemma rewrap_bound_ge:
  assumes "0 < n"
  shows "n \<le> rewrap_bound n"
proof -
  have "0 < 100 / n" using assms by simp
  then have "1 \<le> \<lceil>100 / n\<rceil>" by linarith
  then have "(1::rat) \<le> of_int \<lceil>100 / n\<rceil>" by linarith
  then have "n * 1 \<le> n * of_int \<lceil>100 / n\<rceil>"
    using assms by (intro mult_left_mono) simp_all
  then show ?thesis by (simp add: rewrap_bound_def)
qed

lemma length_items_update [simp]: "length (items (update s)) = length (items s)"
  by (simp add: update_def Let_def)

lemma length_indicators_update [simp]: "length (indicators (update s)) = length (indicators s)"
  by (simp add: update_def Let_def)

lemma index_update:
  "index (update s) =
     (if exceeds_bound (index s) (of_nat (length (items s)))
      then mod_js (index s) (of_nat (length (items s))) else index s)"
  by (simp add: update_def Let_def)

lemma view_index_update [simp]: "view_index (update s) = index (update s)"
  by (simp add: update_def Let_def)

lemma in_view_update:
  assumes "i < length (items s)"
  shows "''in-view'' \<in> items (update s) ! i \<longleftrightarrow>
           mod_js (index s) (of_nat (length (items s))) = Some (of_nat i)"
  using assms by (simp add: update_def Let_def nth_add_class_at)

lemma flagged_in_view_update:
  assumes "items s \<noteq> []" "index s = Some (of_int k)"
  shows "flagged ''in-view'' (items (update s)) = [nat (k mod int (length (items s)))]"
proof (rule flagged_single)
  let ?n = "length (items s)"
  have n: "0 < ?n" using assms(1) by simp
  then have "0 \<le> k mod int ?n" "k mod int ?n < int ?n" by simp_all
  then have "nat (k mod int ?n) < ?n" by linarith
  then show "nat (k mod int ?n) < length (items (update s))" by simp
  fix i
  assume "i < length (items (update s))"
  then have i: "i < ?n" by simp
  have "rat_of_int (k mod int ?n) = of_nat i \<longleftrightarrow> k mod int ?n = int i"
    by (metis of_int_eq_iff of_int_of_nat_eq)
  also have "\<dots> \<longleftrightarrow> i = nat (k mod int ?n)" using n by auto
  finally show "''in-view'' \<in> items (update s) ! i \<longleftrightarrow> i = nat (k mod int ?n)"
    using i by (simp add: in_view_update assms(2) mod_js_int[OF n])
qed

lemma index_update_int:
  assumes "items s \<noteq> []" "index s = Some (of_int k)"
  shows "index (update s) =
           Some (of_int (if \<bar>rat_of_int k\<bar> > rewrap_bound (of_nat (length (items s)))
                         then k mod int (length (items s)) else k))"
  using assms by (simp add: index_update exceeds_bound_def mod_js_int)

lemma index_update_bounded:
  assumes "items s \<noteq> []" "index s = Some x"
  shows "\<exists>y. index (update s) = Some y \<and> \<bar>y\<bar> \<le> rewrap_bound (of_nat (length (items s)))"
proof (cases "exceeds_bound (index s) (of_nat (length (items s)))")
  case True
  let ?n = "rat_of_nat (length (items s))"
  have n: "0 < ?n" using assms(1) by simp
  obtain r where r: "mod_js (Some x) ?n = Some r" "0 \<le> r" "r < ?n"
    using mod_js_bounds[OF n] by blast
  with rewrap_bound_ge[OF n] have "\<bar>r\<bar> \<le> rewrap_bound ?n" by simp
  with True r show ?thesis by (simp add: index_update assms(2))
next
  case False
  then show ?thesis using assms by (simp add: index_update exceeds_bound_def)
qed

lemma not_exceeds_update:
  "\<not> exceeds_bound (index (update s)) (of_nat (length (items s)))"
proof (cases "exceeds_bound (index s) (of_nat (length (items s)))")
  case True
  let ?n = "rat_of_nat (length (items s))"
  from True obtain x where x: "index s = Some x" and n: "0 < ?n"
    by (auto simp: exceeds_bound_def split: option.splits)
  obtain r where r: "mod_js (Some x) ?n = Some r" "0 \<le> r" "r < ?n"
    using mod_js_bounds[OF n] by blast
  with rewrap_bound_ge[OF n] have "\<bar>r\<bar> \<le> rewrap_bound ?n" by simp
  with True r x show ?thesis by (simp add: index_update exceeds_bound_def)
next
  case False
  then show ?thesis by (simp add: index_update)
qed

lemma mod_js_index_update:
  "mod_js (map_option (\<lambda>i. i + c) (index (update s))) (of_nat (length (items s)))
     = mod_js (map_option (\<lambda>i. i + c) (index s)) (of_nat (length (items s)))"
proof (cases "exceeds_bound (index s) (of_nat (length (items s)))")
  case True
  let ?n = "rat_of_nat (length (items s))"
  from True obtain x where x: "index s = Some x" and n: "0 < ?n"
    by (auto simp: exceeds_bound_def split: option.splits)
  have i: "index (update s) = Some (x - ?n * of_int \<lfloor>x / ?n\<rfloor>)"
    using True x by (simp add: index_update mod_js_floor[OF n])
  have e: "x - ?n * of_int \<lfloor>x / ?n\<rfloor> + c = (x + c) - ?n * of_int \<lfloor>x / ?n\<rfloor>" by simp
  have "mod_js (map_option (\<lambda>i. i + c) (index (update s))) ?n
          = mod_js (Some ((x + c) - ?n * of_int \<lfloor>x / ?n\<rfloor>)) ?n"
    by (simp only: i option.map e)
  also have "\<dots> = mod_js (Some (x + c)) ?n" by (rule mod_js_shift[OF n])
  finally show ?thesis by (simp only: x option.map)
next
  case False
  then show ?thesis by (simp add: index_update)
qed

lemma items_update:
  "items (update s) =
     add_class_at (mod_js (map_option (\<lambda>i. i + (- 1)) (index s)) (of_nat (length (items s))))
       ''previous-item''
       (add_class_at (mod_js (map_option (\<lambda>i. i + 1) (index s)) (of_nat (length (items s))))
          ''next-item''
          (add_class_at (mod_js (map_option (\<lambda>i. i + 0) (index s)) (of_nat (length (items s))))
             ''in-view''
             (map (\<lambda>cl. cl - {''in-view'', ''next-item'', ''previous-item''}) (items s))))"
  by (simp add: update_def Let_def option.map_ident)

lemma indicators_update:
  "indicators (update s) =
     add_class_at (mod_js (map_option (\<lambda>i. i + 0) (index s)) (of_nat (length (items s))))
       ''active'' (map (\<lambda>cl. cl - {''active''}) (indicators s))"
  by (simp add: update_def Let_def option.map_ident)

lemma cleared_items_update:
  "map (\<lambda>cl. cl - {''in-view'', ''next-item'', ''previous-item''}) (items (update s))
     = map (\<lambda>cl. cl - {''in-view'', ''next-item'', ''previous-item''}) (items s)"
  by (simp add: items_update map_remove_add_class_at)

lemma cleared_indicators_update:
  "map (\<lambda>cl. cl - {''active''}) (indicators (update s))
     = map (\<lambda>cl. cl - {''active''}) (indicators s)"
  by (simp add: indicators_update map_remove_add_class_at)

lemma items_update_cong:
  assumes "length (items s') = length (items s)"
    and "\<And>c. mod_js (map_option (\<lambda>i. i + c) (index s')) (of_nat (length (items s)))
               = mod_js (map_option (\<lambda>i. i + c) (index s)) (of_nat (length (items s)))"
    and "map (\<lambda>cl. cl - {''in-view'', ''next-item'', ''previous-item''}) (items s')
           = map (\<lambda>cl. cl - {''in-view'', ''next-item'', ''previous-item''}) (items s)"
  shows "items (update s') = items (update s)"
  by (simp only: items_update assms)

lemma indicators_update_cong:
  assumes "length (items s') = length (items s)"
    and "\<And>c. mod_js (map_option (\<lambda>i. i + c) (index s')) (of_nat (length (items s)))
               = mod_js (map_option (\<lambda>i. i + c) (index s)) (of_nat (length (items s)))"
    and "map (\<lambda>cl. cl - {''active''}) (indicators s') = map (\<lambda>cl. cl - {''active''}) (indicators s)"
  shows "indicators (update s') = indicators (update s)"
  by (simp only: indicators_update assms)

lemma other_fields_update [simp]:
  "nextBtn (update s) = nextBtn s" "prevBtn (update s) = prevBtn s"
  "pressedKeys (update s) = pressedKeys s" "touchStartX (update s) = touchStartX s"
  "touchCurrentX (update s) = touchCurrentX s" "swipeThreshold (update s) = swipeThreshold s"
  "slider.more (update s) = slider.more s"
  by (simp_all add: update_def Let_def)

lemma index_update_update: "index (update (update s)) = index (update s)"
  using not_exceeds_update[of s] by (simp add: index_update[of "update s"])

subsection \<open>Normalization and goTo\<close>

lemma normalize_js_floor:
  assumes "items s \<noteq> []"
  shows "normalize_js s (Some x) =
           Some (x - of_nat (length (items s))
                     * of_int \<lfloor>(x + of_nat (length (items s)) / 2) / of_nat (length (items s))\<rfloor>)"
proof -
  have n: "0 < rat_of_nat (length (items s))" using assms by simp
  show ?thesis
    by (simp add: normalize_js_def Let_def mod_js_floor[OF n])
qed

lemma normalize_js_range:
  assumes "items s \<noteq> []"
  shows "\<exists>y. normalize_js s (Some x) = Some y
           \<and> - (of_nat (length (items s)) / 2) \<le> y \<and> y < of_nat (length (items s)) / 2"
proof -
  let ?n = "rat_of_nat (length (items s))"
  have n: "0 < ?n" using assms by simp
  have "0 \<le> x + ?n / 2 - ?n * of_int \<lfloor>(x + ?n / 2) / ?n\<rfloor>"
       "x + ?n / 2 - ?n * of_int \<lfloor>(x + ?n / 2) / ?n\<rfloor> < ?n"
    using floor_rem_bounds[OF n, of "x + ?n / 2"] by simp_all
  then have "- (?n / 2) \<le> x - ?n * of_int \<lfloor>(x + ?n / 2) / ?n\<rfloor>"
            "x - ?n * of_int \<lfloor>(x + ?n / 2) / ?n\<rfloor> < ?n / 2"
    by (simp_all add: field_simps)
  then show ?thesis by (simp add: normalize_js_floor[OF assms])
qed

lemma normalize_js_int:
  assumes "items s \<noteq> []"
  shows "\<exists>d. normalize_js s (Some (of_int x)) = Some (of_int d)
           \<and> d mod int (length (items s)) = x mod int (length (items s))"
proof -
  let ?f = "\<lfloor>(rat_of_int x + of_nat (length (items s)) / 2) / of_nat (length (items s))\<rfloor>"
  have "normalize_js s (Some (of_int x)) = Some (of_int (x - int (length (items s)) * ?f))"
    by (simp add: normalize_js_floor[OF assms])
  moreover have "(x - int (length (items s)) * ?f) mod int (length (items s))
                   = x mod int (length (items s))"
    by (simp add: mod_diff_eq[symmetric, of x])
  ultimately show ?thesis by blast
qed

lemma goTo_update:
  assumes "index s = Some i" "normalize_js s (Some (t - i)) = Some d"
  shows "goTo t s = update (s\<lparr>index := Some (i + d)\<rparr>)"
  using assms by (simp add: goTo_def Let_def)

lemma next_js_goTo:
  assumes "index s = Some (of_int a)"
  shows "next_js s = goTo (of_int (a + 1)) s"
  using assms by (simp add: next_js_def)

lemma prev_js_goTo:
  assumes "index s = Some (of_int a)"
  shows "prev_js s = goTo (of_int (a - 1)) s"
  using assms by (simp add: prev_js_def)

lemma goTo_int:
  assumes "items s \<noteq> []" "index s = Some (of_int a)"
  shows "\<exists>k. goTo (of_int b) s = update (s\<lparr>index := Some (of_int k)\<rparr>)
           \<and> k mod int (length (items s)) = b mod int (length (items s))"
proof -
  obtain d where d: "normalize_js s (Some (of_int (b - a))) = Some (of_int d)"
      "d mod int (length (items s)) = (b - a) mod int (length (items s))"
    using normalize_js_int[OF assms(1)] by blast
  have "goTo (of_int b) s = update (s\<lparr>index := Some (of_int a + of_int d)\<rparr>)"
    using d(1) by (intro goTo_update assms(2)) simp
  then have "goTo (of_int b) s = update (s\<lparr>index := Some (of_int (a + d))\<rparr>)" by simp
  moreover have "(a + d) mod int (length (items s)) = b mod int (length (items s))"
    using d(2) by (metis add.commute diff_add_cancel mod_add_left_eq)
  ultimately show ?thesis by blast
qed

text \<open>What \<^verbatim>\<open>update\<close> establishes from an integer index.\<close>

lemma update_post:
  assumes "items s \<noteq> []" "index s = Some (of_int k)"
  shows "\<exists>k'. index (update s) = Some (of_int k')
            \<and> k' mod int (length (items s)) = k mod int (length (items s))
            \<and> \<bar>rat_of_int k'\<bar> \<le> rewrap_bound (of_nat (length (items s)))
            \<and> flagged ''in-view'' (items (update s)) = [nat (k' mod int (length (items s)))]"
proof -
  let ?k' = "if \<bar>rat_of_int k\<bar> > rewrap_bound (of_nat (length (items s)))
             then k mod int (length (items s)) else k"
  have i: "index (update s) = Some (of_int ?k')" by (rule index_update_int[OF assms])
  have m: "?k' mod int (length (items s)) = k mod int (length (items s))" by simp
  obtain y where "index (update s) = Some y"
      "\<bar>y\<bar> \<le> rewrap_bound (of_nat (length (items s)))"
    using index_update_bounded[OF assms] by blast
  with i have b: "\<bar>rat_of_int ?k'\<bar> \<le> rewrap_bound (of_nat (length (items s)))" by simp
  have "flagged ''in-view'' (items (update s)) = [nat (?k' mod int (length (items s)))]"
    by (simp only: m flagged_in_view_update[OF assms])
  with i m b show ?thesis by blast
qed

lemma exec_post:
  assumes "items s \<noteq> []" "index s = Some (of_int a)"
  shows "\<exists>k'. index (exec c s) = Some (of_int k')
            \<and> \<bar>rat_of_int k'\<bar> \<le> rewrap_bound (of_nat (length (items s)))
            \<and> flagged ''in-view'' (items (exec c s)) = [nat (k' mod int (length (items s)))]
            \<and> length (items (exec c s)) = length (items s)
            \<and> view_index (exec c s) = index (exec c s)"
proof -
  have "\<exists>b. exec c s = goTo (of_int b) s"
  proof (cases c)
    case Next
    then have "exec c s = goTo (of_int (a + 1)) s"
      by (simp only: exec.simps next_js_goTo[OF assms(2)])
    then show ?thesis by (rule exI)
  next
    case Prev
    then have "exec c s = goTo (of_int (a - 1)) s"
      by (simp only: exec.simps prev_js_goTo[OF assms(2)])
    then show ?thesis by (rule exI)
  next
    case (GoTo b)
    then have "exec c s = goTo (of_int b) s" by (simp only: exec.simps)
    then show ?thesis by (rule exI)
  qed
  then obtain b where "exec c s = goTo (of_int b) s" by blast
  then obtain k where k: "exec c s = update (s\<lparr>index := Some (of_int k)\<rparr>)"
    using goTo_int[OF assms] by metis
  show ?thesis
    using update_post[of "s\<lparr>index := Some (of_int k)\<rparr>" k] assms(1)
    by (auto simp: k)
qed

subsection \<open>Sequences of calls from a constructed carousel\<close>

lemma run_snoc: "run (cs @ [c]) s = exec c (run cs s)"
  by (simp add: run_def)

lemma run_post:
  assumes "items s \<noteq> []" "index s = Some (of_int a)"
    and "\<bar>rat_of_int a\<bar> \<le> rewrap_bound (of_nat (length (items s)))"
    and "flagged ''in-view'' (items s) = [nat (a mod int (length (items s)))]"
    and "view_index s = index s"
  shows "\<exists>k. index (run cs s) = Some (of_int k)
           \<and> \<bar>rat_of_int k\<bar> \<le> rewrap_bound (of_nat (length (items s)))
           \<and> flagged ''in-view'' (items (run cs s)) = [nat (k mod int (length (items s)))]
           \<and> length (items (run cs s)) = length (items s)
           \<and> view_index (run cs s) = index (run cs s)"
proof (induction cs rule: rev_induct)
  case Nil
  show ?case using assms by (auto simp: run_def)
next
  case (snoc c cs)
  then obtain k where k: "index (run cs s) = Some (of_int k)"
    and len: "length (items (run cs s)) = length (items s)"
    by blast
  from len assms(1) have ne: "items (run cs s) \<noteq> []" by auto
  show ?case
    using exec_post[OF ne k, of c] by (simp add: run_snoc len)
qed

lemma items_update_Nil [simp]: "items (update s) = [] \<longleftrightarrow> items s = []"
  by (metis length_0_conv length_items_update)

lemma constructed:
  assumes "Slider3D qs arg ls = (Inr s0, ls')"
  shows "\<exists>el. s0 = update (init_fields el) \<and> ls' = bindEvents (init_fields el) ls
           \<and> resolve_root qs arg = Inr el"
  using assms by (auto simp: Slider3D_def split: sum.splits)

lemma constructed_post:
  assumes "Slider3D qs arg ls = (Inr s0, ls')" "items s0 \<noteq> []"
  shows "\<exists>a. index s0 = Some (of_int a)
           \<and> \<bar>rat_of_int a\<bar> \<le> rewrap_bound (of_nat (length (items s0)))
           \<and> flagged ''in-view'' (items s0) = [nat (a mod int (length (items s0)))]
           \<and> view_index s0 = index s0"
proof -
  obtain el where el: "s0 = update (init_fields el)"
    using constructed[OF assms(1)] by blast
  have i: "index (init_fields el) = Some (of_int 0)" by (simp add: init_fields_def)
  have ne: "items (init_fields el) \<noteq> []" using assms(2) el by auto
  show ?thesis using update_post[OF ne i] by (auto simp: el)
qed

lemma reachable_post:
  assumes "Slider3D qs arg ls = (Inr s0, ls')" "items s0 \<noteq> []"
  shows "\<exists>k. index (run cs s0) = Some (of_int k)
           \<and> \<bar>rat_of_int k\<bar> \<le> rewrap_bound (of_nat (length (items s0)))
           \<and> flagged ''in-view'' (items (run cs s0)) = [nat (k mod int (length (items s0)))]
           \<and> length (items (run cs s0)) = length (items s0)
           \<and> view_index (run cs s0) = index (run cs s0)"
proof -
  obtain a where "index s0 = Some (of_int a)"
      "\<bar>rat_of_int a\<bar> \<le> rewrap_bound (of_nat (length (items s0)))"
      "flagged ''in-view'' (items s0) = [nat (a mod int (length (items s0)))]"
      "view_index s0 = index s0"
    using constructed_post[OF assms] by blast
  then show ?thesis by (intro run_post assms(2))
qed

subsection \<open>Repeated next\<close>

lemma goTo_post:
  assumes "items s \<noteq> []" "index s = Some (of_int a)"
  shows "\<exists>k. index (goTo (of_int b) s) = Some (of_int k)
           \<and> k mod int (length (items s)) = b mod int (length (items s))
           \<and> flagged ''in-view'' (items (goTo (of_int b) s)) = [nat (k mod int (length (items s)))]
           \<and> length (items (goTo (of_int b) s)) = length (items s)"
proof -
  obtain j where j: "goTo (of_int b) s = update (s\<lparr>index := Some (of_int j)\<rparr>)"
      "j mod int (length (items s)) = b mod int (length (items s))"
    using goTo_int[OF assms] by blast
  show ?thesis
    using update_post[of "s\<lparr>index := Some (of_int j)\<rparr>" j] assms(1) j(2)
    by (auto simp: j(1))
qed

lemma next_js_post:
  assumes "items s \<noteq> []" "index s = Some (of_int a)"
  shows "\<exists>k. index (next_js s) = Some (of_int k)
           \<and> k mod int (length (items s)) = (a + 1) mod int (length (items s))
           \<and> flagged ''in-view'' (items (next_js s)) = [nat (k mod int (length (items s)))]
           \<and> length (items (next_js s)) = length (items s)"
  using goTo_post[OF assms, of "a + 1"] by (simp only: next_js_goTo[OF assms(2)])

lemma funpow_next_js_post:
  assumes "items s \<noteq> []" "index s = Some (of_int a)"
  shows "\<exists>k. index ((next_js ^^ Suc j) s) = Some (of_int k)
           \<and> k mod int (length (items s)) = (a + 1 + int j) mod int (length (items s))
           \<and> flagged ''in-view'' (items ((next_js ^^ Suc j) s)) = [nat (k mod int (length (items s)))]
           \<and> length (items ((next_js ^^ Suc j) s)) = length (items s)"
proof (induction j)
  case 0
  show ?case using next_js_post[OF assms] by simp
next
  case (Suc j)
  define t where "t = (next_js ^^ Suc j) s"
  have e: "(next_js ^^ Suc (Suc j)) s = next_js t" by (simp add: t_def)
  from Suc obtain k where k: "index t = Some (of_int k)"
      "k mod int (length (items s)) = (a + 1 + int j) mod int (length (items s))"
      "length (items t) = length (items s)"
    unfolding t_def[symmetric] by blast
  from k(3) assms(1) have ne: "items t \<noteq> []" by auto
  obtain k' where k': "index (next_js t) = Some (of_int k')"
      "k' mod int (length (items s)) = (k + 1) mod int (length (items s))"
      "flagged ''in-view'' (items (next_js t)) = [nat (k' mod int (length (items s)))]"
      "length (items (next_js t)) = length (items s)"
    using next_js_post[OF ne k(1)] unfolding k(3) by blast
  have "(k + 1) mod int (length (items s)) = (a + 1 + int j + 1) mod int (length (items s))"
    using k(2) by (rule mod_add_cong) simp
  with k'(2) have "k' mod int (length (items s)) = (a + 1 + int (Suc j)) mod int (length (items s))"
    by (simp add: add.commute add.left_commute)
  with k'(1,3,4) show ?case unfolding e by blast
qed

lemma normalize_js_one:
  assumes "items s \<noteq> []"
  shows "normalize_js s (Some 1) =
           Some (if length (items s) = 1 then 0 else if length (items s) = 2 then - 1 else 1)"
proof -
  let ?n = "rat_of_nat (length (items s))"
  have n: "1 \<le> length (items s)" using assms by (simp add: Suc_le_eq)
  consider "length (items s) = 1" | "length (items s) = 2" | "3 \<le> length (items s)"
    using n by linarith
  then show ?thesis
  proof cases
    case 1
    have "\<lfloor>3 / 2 :: rat\<rfloor> = 1" by (simp add: floor_eq_iff)
    with 1 show ?thesis by (simp add: normalize_js_floor[OF assms])
  next
    case 2
    then show ?thesis by (simp add: normalize_js_floor[OF assms])
  next
    case 3
    then have n3: "3 \<le> ?n" by simp
    then have lt: "1 + ?n / 2 < ?n" and pos: "0 < ?n" by linarith+
    have "0 \<le> (1 + ?n / 2) / ?n" using pos by simp
    moreover have "(1 + ?n / 2) / ?n < 1"
      using lt pos by (simp only: pos_divide_less_eq mult_1)
    ultimately have "0 \<le> (1 + ?n / 2) / ?n" "(1 + ?n / 2) / ?n < 1" by blast+
    then have "\<lfloor>(1 + ?n / 2) / ?n\<rfloor> = 0" by (simp add: floor_eq_iff)
    with 3 show ?thesis by (simp add: normalize_js_floor[OF assms])
  qed
qed

lemma next_js_step:
  assumes "items s \<noteq> []" "index s = Some (of_int a)"
  shows "next_js s = update (s\<lparr>index := Some (of_int
           (a + (if length (items s) = 1 then 0 else if length (items s) = 2 then - 1 else 1)))\<rparr>)"
proof -
  have "normalize_js s (Some (rat_of_int a + 1 - rat_of_int a)) =
          Some (if length (items s) = 1 then 0 else if length (items s) = 2 then - 1 else 1)"
    using normalize_js_one[OF assms(1)] by simp
  then have "goTo (rat_of_int a + 1) s = update (s\<lparr>index := Some (rat_of_int a +
          (if length (items s) = 1 then 0 else if length (items s) = 2 then - 1 else 1))\<rparr>)"
    by (rule goTo_update[OF assms(2)])
  then show ?thesis using assms(2) by (simp add: next_js_def)
qed

lemma rewrap_bound_nat:
  "rewrap_bound (of_nat n) = of_nat (n * nat \<lceil>100 / rat_of_nat n\<rceil>)"
proof -
  have "0 \<le> 100 / rat_of_nat n" by simp
  then have "0 \<le> \<lceil>100 / rat_of_nat n\<rceil>" by linarith
  then have "rat_of_int \<lceil>100 / rat_of_nat n\<rceil> = of_nat (nat \<lceil>100 / rat_of_nat n\<rceil>)"
    by simp
  then show ?thesis by (simp add: rewrap_bound_def)
qed

lemma next_js_in_bound:
  assumes "2 \<le> length (items s)" "index s = Some (of_int a)"
    and "d = (if length (items s) = 2 then - 1 else 1)"
    and "\<bar>rat_of_int (a + d)\<bar> \<le> rewrap_bound (of_nat (length (items s)))"
  shows "index (next_js s) = Some (of_int (a + d))"
proof -
  have ne: "items s \<noteq> []" using assms(1) by auto
  have "next_js s = update (s\<lparr>index := Some (of_int (a + d))\<rparr>)"
    using next_js_step[OF ne assms(2)] assms(1,3) by simp
  moreover have "index (update (s\<lparr>index := Some (of_int (a + d))\<rparr>)) = Some (of_int (a + d))"
    using index_update_int[of "s\<lparr>index := Some (of_int (a + d))\<rparr>" "a + d"] ne assms(4)
    by simp
  ultimately show ?thesis by simp
qed

lemma next_js_beyond_bound:
  assumes "2 \<le> length (items s)" "index s = Some (of_int a)"
    and "d = (if length (items s) = 2 then - 1 else 1)"
    and "\<bar>rat_of_int (a + d)\<bar> > rewrap_bound (of_nat (length (items s)))"
  shows "index (next_js s) = Some (of_int ((a + d) mod int (length (items s))))"
proof -
  have ne: "items s \<noteq> []" using assms(1) by auto
  have "next_js s = update (s\<lparr>index := Some (of_int (a + d))\<rparr>)"
    using next_js_step[OF ne assms(2)] assms(1,3) by simp
  moreover have "index (update (s\<lparr>index := Some (of_int (a + d))\<rparr>))
                   = Some (of_int ((a + d) mod int (length (items s))))"
    using index_update_int[of "s\<lparr>index := Some (of_int (a + d))\<rparr>" "a + d"] ne assms(4)
    by simp
  ultimately show ?thesis by simp
qed

lemma length_items_next_js:
  assumes "items s \<noteq> []" "index s = Some (of_int a)"
  shows "length (items (next_js s)) = length (items s)"
  using next_js_post[OF assms] by blast

lemma funpow_next_js_in_bound:
  assumes "2 \<le> length (items s)" "index s = Some (of_int a)"
    and "d = (if length (items s) = 2 then - 1 else 1)"
    and "\<And>i. i \<le> j \<Longrightarrow> \<bar>rat_of_int (a + d * int i)\<bar> \<le> rewrap_bound (of_nat (length (items s)))"
  shows "index ((next_js ^^ j) s) = Some (of_int (a + d * int j))
           \<and> length (items ((next_js ^^ j) s)) = length (items s)"
  using assms(4)
proof (induction j)
  case 0
  show ?case using assms(2) by simp
next
  case (Suc j)
  define t where "t = (next_js ^^ j) s"
  have e: "(next_js ^^ Suc j) s = next_js t" by (simp add: t_def)
  have t: "index t = Some (of_int (a + d * int j))" "length (items t) = length (items s)"
    using Suc.IH Suc.prems unfolding t_def by simp_all
  have ne: "items t \<noteq> []" using t(2) assms(1) by auto
  have d: "d = (if length (items t) = 2 then - 1 else 1)" using assms(3) t(2) by simp
  have eq: "a + d * int j + d = a + d * int (Suc j)" by (simp add: algebra_simps)
  have "\<bar>rat_of_int (a + d * int (Suc j))\<bar> \<le> rewrap_bound (of_nat (length (items s)))"
    by (rule Suc.prems) simp
  then have b: "\<bar>rat_of_int (a + d * int j + d)\<bar> \<le> rewrap_bound (of_nat (length (items t)))"
    by (simp only: eq t(2))
  have "index (next_js t) = Some (of_int (a + d * int j + d))"
    using assms(1) t(1) d b unfolding t(2)[symmetric] by (rule next_js_in_bound)
  moreover have "length (items (next_js t)) = length (items s)"
    using length_items_next_js[OF ne t(1)] t(2) by simp
  ultimately show ?case unfolding e eq by simp
qed

subsection \<open>The examples\<close>

lemma example_slider_items: "0 < n \<Longrightarrow> items (example_slider n) \<noteq> []"
  by (simp add: example_slider_def init_fields_def plain_root_def)

lemma example_slider_length [simp]: "length (items (example_slider n)) = n"
  by (simp add: example_slider_def init_fields_def plain_root_def)

lemma example_slider_index: "index (example_slider n) = Some (of_int 0)"
proof (cases "n = 0")
  case True
  then show ?thesis
    by (simp add: example_slider_def index_update exceeds_bound_def init_fields_def plain_root_def)
next
  case False
  then have ne: "items (init_fields (plain_root n)) \<noteq> []"
    by (simp add: init_fields_def plain_root_def)
  have i: "index (init_fields (plain_root n)) = Some (of_int 0)" by (simp add: init_fields_def)
  have "(0::rat) \<le> rewrap_bound (of_nat (length (items (init_fields (plain_root n)))))"
    by (simp only: rewrap_bound_nat of_nat_0_le_iff)
  then show ?thesis
    using index_update_int[OF ne i] by (simp add: example_slider_def)
qed

lemma example_slider_constructed:
  "Slider3D qs (Elem (plain_root n)) ls =
     (Inr (example_slider n), bindEvents (init_fields (plain_root n)) ls)"
  by (simp add: Slider3D_def resolve_root_def example_slider_def)

subsection \<open>Reaching the bound\<close>

lemma constructed_index:
  assumes "Slider3D qs arg ls = (Inr s0, ls')"
  shows "index s0 = Some (of_int 0)"
proof -
  obtain el where el: "s0 = update (init_fields el)"
    using constructed[OF assms] by blast
  have "\<not> exceeds_bound (Some 0) (of_nat (length (items (init_fields el))))"
    by (simp add: exceeds_bound_def rewrap_bound_nat del: of_nat_mult)
  then show ?thesis by (simp add: el index_update init_fields_def)
qed

lemma collapse_remainder:
  assumes "2 \<le> n" "d = (if n = 2 then - 1 else 1)"
  shows "(d * int (n * c) + d) mod int n = 1"
proof (cases "n = 2")
  case True
  then have "d * int (n * c) + d = - 1 + 2 * (- int c)" using assms(2) by simp
  then have "(d * int (n * c) + d) mod 2 = (- 1 + 2 * (- int c)) mod 2" by simp
  also have "\<dots> = (- 1) mod 2" by (rule mod_mult_self2)
  finally show ?thesis using True by simp
next
  case False
  then have n: "3 \<le> n" using assms(1) by simp
  have "d * int (n * c) + d = 1 + int n * int c" using False assms(2) by simp
  then have "(d * int (n * c) + d) mod int n = 1 mod int n"
    by (simp only: mod_mult_self2)
  then show ?thesis using n by simp
qed

subsection \<open>Listeners and single calls\<close>

lemma length_bindEvents: "length ls + 6 \<le> length (bindEvents s ls)"
  by (simp add: bindEvents_def)

lemma update_bounded_published:
  assumes "items s \<noteq> []" "index s = Some x"
  shows "\<exists>y. index (update s) = Some y
           \<and> \<bar>y\<bar> \<le> rewrap_bound (of_nat (length (items s)))
           \<and> view_index (update s) = Some y"
  using index_update_bounded[OF assms] by auto

lemma goTo_bounded:
  assumes "items s \<noteq> []" "index s = Some x"
  shows "\<exists>y. index (goTo t s) = Some y
           \<and> \<bar>y\<bar> \<le> rewrap_bound (of_nat (length (items s)))
           \<and> view_index (goTo t s) = Some y"
proof -
  obtain d where "normalize_js s (Some (t - x)) = Some d"
    using normalize_js_range[OF assms(1)] by blast
  then have g: "goTo t s = update (s\<lparr>index := Some (x + d)\<rparr>)"
    by (rule goTo_update[OF assms(2)])
  show ?thesis
    using update_bounded_published[of "s\<lparr>index := Some (x + d)\<rparr>" "x + d"] assms(1)
    by (simp add: g)
qed

section \<open>Exact and double arithmetic agree on moderate numbers\<close>

subsection \<open>Rounding\<close>

lemma expo_le:
  assumes "x \<noteq> 0"
  shows "2 powi (expo x) \<le> \<bar>x\<bar>"
proof -
  obtain p q where pq: "quotient_of \<bar>x\<bar> = (p, q)" by (cases "quotient_of \<bar>x\<bar>")
  have q: "0 < q" using pq by (rule quotient_of_denom_pos)
  have x: "\<bar>x\<bar> = of_int p / of_int q" using pq by (rule quotient_of_div)
  have "0 < \<bar>x\<bar>" using assms by simp
  then have p: "0 < p" using x q by (simp add: zero_less_divide_iff)
  let ?d = "bitlen p - bitlen q"
  show ?thesis
  proof (cases "2 powi ?d \<le> \<bar>x\<bar>")
    case True
    then show ?thesis by (simp add: expo_def pq)
  next
    case False
    have bp: "2 ^ nat (bitlen p - 1) \<le> p" and bq: "q < 2 ^ nat (bitlen q)"
      using bitlen_bounds[OF p] bitlen_bounds[OF q] by simp_all
    have p1: "1 \<le> bitlen p" using p by (auto simp: bitlen_alt_def)
    have q0: "0 \<le> bitlen q" by (rule bitlen_nonneg)
    have a: "(2::rat) powi (bitlen p - 1) \<le> of_int p"
    proof -
      have "rat_of_int (2 ^ nat (bitlen p - 1)) \<le> of_int p" using bp by (simp only: of_int_le_iff)
      then show ?thesis using p1 by (simp add: power_int_def)
    qed
    have b: "rat_of_int q \<le> 2 powi (bitlen q)"
    proof -
      have "rat_of_int q \<le> of_int (2 ^ nat (bitlen q))" using bq by (simp only: of_int_le_iff less_imp_le)
      then show ?thesis using q0 by (simp add: power_int_def)
    qed
    have "(2::rat) powi (?d - 1) = 2 powi (bitlen p - 1) / 2 powi (bitlen q)"
      by (simp add: power_int_diff)
    also have "\<dots> \<le> of_int p / 2 powi (bitlen q)"
      using a by (intro divide_right_mono) simp_all
    also have "\<dots> \<le> of_int p / of_int q"
      using b p q by (intro divide_left_mono) simp_all
    finally have "(2::rat) powi (?d - 1) \<le> \<bar>x\<bar>" by (simp only: x)
    with False show ?thesis by (simp add: expo_def pq)
  qed
qed

lemma round_even_of_int: "round_even (of_int z) = z"
  by (simp add: round_even_def)

lemma round_even_error: "\<bar>of_int (round_even y) - y\<bar> \<le> 1 / 2"
proof -
  have "of_int \<lfloor>y\<rfloor> \<le> y" "y < of_int \<lfloor>y\<rfloor> + 1" by linarith+
  then show ?thesis by (auto simp: round_even_def Let_def)
qed

lemma fl_exact:
  assumes "\<bar>m\<bar> < 2 ^ 53"
  shows "fl (of_int m * 2 powi j) = of_int m * 2 powi j"
proof (cases "m = 0")
  case True
  then show ?thesis by (simp add: fl_def)
next
  case False
  let ?x = "rat_of_int m * 2 powi j"
  have x0: "?x \<noteq> 0" using False by simp
  have "2 powi (expo ?x) \<le> \<bar>?x\<bar>" by (rule expo_le[OF x0])
  also have "\<bar>?x\<bar> = of_int \<bar>m\<bar> * 2 powi j" by (simp add: abs_mult)
  also have "\<dots> < of_int (2 ^ 53) * 2 powi j"
    using assms by (intro mult_strict_right_mono) (simp_all only: of_int_less_iff zero_less_power_int zero_less_numeral)
  also have "\<dots> = 2 powi (53 + j)" by (simp add: power_int_add)
  finally have "(2::rat) powi (expo ?x) < 2 powi (53 + j)" .
  then have "expo ?x < 53 + j"
    by (metis linorder_not_less one_less_numeral_iff power_int_increasing semiring_norm(76) less_imp_le)
  then have e: "0 \<le> j - (expo ?x - 52)" by simp
  have "?x / 2 powi (expo ?x - 52) = of_int m * 2 powi (j - (expo ?x - 52))"
    by (simp add: power_int_diff)
  also have "\<dots> = of_int (m * 2 ^ nat (j - (expo ?x - 52)))"
    using e by (simp add: power_int_def)
  finally have "round_even (?x / 2 powi (expo ?x - 52)) = m * 2 ^ nat (j - (expo ?x - 52))"
    by (simp only: round_even_of_int)
  then have "fl ?x = 2 powi (expo ?x - 52) * of_int (m * 2 ^ nat (j - (expo ?x - 52)))"
    using x0 by (simp only: fl_def if_False)
  also have "\<dots> = 2 powi (expo ?x - 52) * (of_int m * 2 powi (j - (expo ?x - 52)))"
    using e by (simp add: power_int_def)
  also have "\<dots> = ?x" by (simp add: power_int_diff)
  finally show ?thesis .
qed

lemma fl_int:
  assumes "\<bar>m\<bar> < 2 ^ 53"
  shows "fl (of_int m) = of_int m"
  using fl_exact[OF assms, of 0] by simp

lemma fl_half:
  assumes "\<bar>m\<bar> < 2 ^ 53"
  shows "fl (of_int m / 2) = of_int m / 2"
  using fl_exact[OF assms, of "- 1"] by (simp add: field_simps)

lemma fl_error:
  assumes "x \<noteq> 0"
  shows "\<bar>fl x - x\<bar> \<le> 2 powi (expo x - 53)"
proof -
  let ?u = "(2::rat) powi (expo x - 52)"
  have u: "0 < ?u" by simp
  have "fl x - x = ?u * (of_int (round_even (x / ?u)) - x / ?u)"
    using assms by (simp add: fl_def algebra_simps)
  then have "\<bar>fl x - x\<bar> = ?u * \<bar>of_int (round_even (x / ?u)) - x / ?u\<bar>"
    using u by (simp add: abs_mult)
  also have "\<dots> \<le> ?u * (1 / 2)"
    using u round_even_error by (intro mult_left_mono) simp_all
  also have "\<dots> = 2 powi (expo x - 53)"
    by (simp add: power_int_diff)
  finally show ?thesis .
qed

lemma expo_less:
  assumes "x \<noteq> 0" "\<bar>x\<bar> < 2 powi k"
  shows "expo x < k"
proof (rule ccontr)
  assume "\<not> expo x < k"
  then have "k \<le> expo x" by simp
  then have "(2::rat) powi k \<le> 2 powi (expo x)" by (intro power_int_increasing) simp_all
  also have "\<dots> \<le> \<bar>x\<bar>" by (rule expo_le[OF assms(1)])
  finally show False using assms(2) by simp
qed

lemma ceiling_fl_div:
  assumes "1 \<le> n" "n \<le> 2 ^ 32"
  shows "\<lceil>fl (100 / rat_of_nat n)\<rceil> = \<lceil>100 / rat_of_nat n\<rceil>"
proof -
  let ?n = "rat_of_nat n"
  let ?x = "100 / ?n"
  let ?c = "\<lceil>?x\<rceil>"
  have n: "0 < ?n" "1 \<le> ?n" using assms(1) by simp_all
  have nb: "?n \<le> 2 ^ 32"
  proof -
    have "rat_of_nat n \<le> of_nat (2 ^ 32)" using assms(2) by (simp only: of_nat_le_iff)
    then show ?thesis by simp
  qed
  have x0: "0 < ?x" using n by simp
  have x100: "?x \<le> 100" using n by (simp add: pos_divide_le_eq)
  have c100: "?c \<le> 100" using x100 by (simp add: ceiling_le_iff)
  have c0: "0 < ?c" using x0 by simp
  show ?thesis
  proof (cases "of_int ?c = ?x")
    case True
    have "(100::int) < 2 ^ 53" by simp
    with c100 c0 have "\<bar>?c\<bar> < 2 ^ 53" by linarith
    then have "fl (of_int ?c) = of_int ?c" by (rule fl_int)
    then have "fl ?x = ?x" unfolding True .
    then show ?thesis by (rule arg_cong)
  next
    case False
    have up: "?x < of_int ?c" using False le_of_int_ceiling[of ?x] by linarith
    have lo: "of_int ?c - 1 < ?x" by linarith
    have nx: "?n * ?x = 100" using n by simp
    have "0 < of_int ?c * ?n - 100"
      using up n by (simp add: pos_divide_less_eq)
    then have "0 < rat_of_int (?c * int n - 100)" by simp
    then have "0 < ?c * int n - 100" by (simp only: of_int_0_less_iff)
    then have "1 \<le> ?c * int n - 100" by linarith
    then have "(1::rat) \<le> of_int (?c * int n - 100)" by (simp only: of_int_1_le_iff)
    then have g1: "1 / ?n \<le> of_int ?c - ?x"
      using n by (simp add: field_simps)
    have "0 < 100 - (of_int ?c - 1) * ?n"
      using lo n by (simp add: pos_less_divide_eq)
    then have "0 < rat_of_int (100 - (?c - 1) * int n)" by simp
    then have "0 < 100 - (?c - 1) * int n" by (simp only: of_int_0_less_iff)
    then have "1 \<le> 100 - (?c - 1) * int n" by linarith
    then have "(1::rat) \<le> of_int (100 - (?c - 1) * int n)" by (simp only: of_int_1_le_iff)
    then have g2: "1 / ?n \<le> ?x - (of_int ?c - 1)"
      using n by (simp add: field_simps)
    have inv: "(1::rat) / 2 ^ 32 \<le> 1 / ?n"
      using nb n by (intro divide_left_mono) simp_all
    have "\<bar>?x\<bar> < 2 powi 7" using x100 x0 by simp
    then have "expo ?x < 7" using x0 by (intro expo_less) simp_all
    then have "expo ?x - 53 \<le> - 47" by simp
    then have "(2::rat) powi (expo ?x - 53) \<le> 2 powi (- 47)"
      by (intro power_int_increasing) simp_all
    moreover have "\<bar>fl ?x - ?x\<bar> \<le> 2 powi (expo ?x - 53)"
      using x0 by (intro fl_error) simp
    ultimately have err: "\<bar>fl ?x - ?x\<bar> \<le> 2 powi (- 47)" by linarith
    have small: "(2::rat) powi (- 47) < 1 / 2 ^ 32" by (simp add: power_int_minus field_simps)
    have "of_int ?c - 1 < fl ?x" using err small inv g2 by linarith
    moreover have "fl ?x \<le> of_int ?c" using err small inv g1 by linarith
    ultimately show ?thesis by (simp add: ceiling_eq_iff)
  qed
qed

lemma rewrap_bound_d_eq:
  assumes "1 \<le> n" "n \<le> 2 ^ 32"
  shows "rewrap_bound_d (of_nat n) = rewrap_bound (of_nat n)"
proof -
  let ?c = "\<lceil>100 / rat_of_nat n\<rceil>"
  have n: "1 \<le> rat_of_nat n" using assms(1) by simp
  then have "100 / rat_of_nat n \<le> 100" by (simp add: pos_divide_le_eq)
  then have c100: "?c \<le> 100" by (simp add: ceiling_le_iff)
  have "0 < 100 / rat_of_nat n" using n by simp
  then have c0: "0 < ?c" by simp
  have "int n \<le> 2 ^ 32" using assms(2) by (metis of_nat_le_iff of_nat_numeral of_nat_power)
  then have "int n * ?c \<le> 2 ^ 32 * 100"
  proof (rule mult_mono)
    show "?c \<le> 100" by (rule c100)
    show "(0::int) \<le> 2 ^ 32" by simp
    show "0 \<le> ?c" using c0 by linarith
  qed
  moreover have "0 \<le> int n * ?c" using c0 by (intro mult_nonneg_nonneg) linarith+
  moreover have "(2::int) ^ 32 * 100 < 2 ^ 53" by simp
  ultimately have "\<bar>int n * ?c\<bar> < 2 ^ 53" by linarith
  then have "fl (of_int (int n * ?c)) = of_int (int n * ?c)" by (rule fl_int)
  then show ?thesis
    by (simp add: rewrap_bound_d_def rewrap_bound_def ceiling_fl_div[OF assms])
qed

lemma rewrap_bound_le:
  assumes "1 \<le> n" "n \<le> 2 ^ 32"
  shows "rewrap_bound (of_nat n) \<le> 2 ^ 39"
proof -
  let ?c = "\<lceil>100 / rat_of_nat n\<rceil>"
  have n: "1 \<le> rat_of_nat n" using assms(1) by simp
  then have "100 / rat_of_nat n \<le> 100" by (simp add: pos_divide_le_eq)
  then have c100: "?c \<le> 100" by (simp add: ceiling_le_iff)
  then have c: "rat_of_int ?c \<le> 100" by (metis of_int_le_iff of_int_numeral)
  have "0 < 100 / rat_of_nat n" using n by simp
  then have c0: "0 < ?c" by simp
  have nb: "rat_of_nat n \<le> 2 ^ 32"
  proof -
    have "rat_of_nat n \<le> of_nat (2 ^ 32)" using assms(2) by (simp only: of_nat_le_iff)
    then show ?thesis by simp
  qed
  have "rat_of_nat n * of_int ?c \<le> 2 ^ 32 * 100"
  proof (rule mult_mono)
    show "rat_of_nat n \<le> 2 ^ 32" by (rule nb)
    show "rat_of_int ?c \<le> 100" by (rule c)
    show "(0::rat) \<le> 2 ^ 32" by simp
    show "0 \<le> rat_of_int ?c" using c0 by linarith
  qed
  moreover have "(2::rat) ^ 32 * 100 \<le> 2 ^ 39" by simp
  ultimately have "rat_of_nat n * of_int ?c \<le> 2 ^ 39" by linarith
  then show ?thesis by (simp only: rewrap_bound_def)
qed

subsection \<open>The operations\<close>

lemma nat_bound_rat:
  assumes "n \<le> 2 ^ 32"
  shows "int n \<le> 2 ^ 32"
  using assms by (metis of_nat_le_iff of_nat_numeral of_nat_power)

lemma trunc_error: "\<bar>q - of_int (trunc q)\<bar> < 1"
proof -
  have "of_int \<lfloor>q\<rfloor> \<le> q" "q < of_int \<lfloor>q\<rfloor> + 1" "q \<le> of_int \<lceil>q\<rceil>" "of_int \<lceil>q\<rceil> < q + 1"
    by linarith+
  then show ?thesis by (auto simp: trunc_def)
qed

lemma js_rem_half:
  assumes "1 \<le> n"
  shows "\<exists>j. js_rem (of_int m / 2) (of_nat n) = Some (of_int j / 2) \<and> \<bar>j\<bar> < 2 * int n"
proof -
  let ?n = "rat_of_nat n"
  let ?x = "rat_of_int m / 2"
  let ?t = "trunc (?x / ?n)"
  have n: "0 < ?n" using assms by simp
  have r: "js_rem ?x ?n = Some (?x - ?n * of_int ?t)" using n by (simp add: js_rem_def)
  have e: "?x - ?n * of_int ?t = of_int (m - 2 * int n * ?t) / 2" by (simp add: field_simps)
  have "?x - ?n * of_int ?t = ?n * (?x / ?n - of_int ?t)" using n by (simp add: field_simps)
  then have "\<bar>?x - ?n * of_int ?t\<bar> = ?n * \<bar>?x / ?n - of_int ?t\<bar>"
    using n by (simp add: abs_mult)
  also have "\<dots> < ?n * 1" using n trunc_error by (intro mult_strict_left_mono) simp_all
  finally have "\<bar>rat_of_int (m - 2 * int n * ?t) / 2\<bar> < ?n" by (simp only: e mult_1_right)
  then have "\<bar>rat_of_int (m - 2 * int n * ?t)\<bar> < 2 * ?n" by (simp add: field_simps)
  then have "rat_of_int \<bar>m - 2 * int n * ?t\<bar> < of_int (2 * int n)" by simp
  then have "\<bar>m - 2 * int n * ?t\<bar> < 2 * int n" by (simp only: of_int_less_iff)
  with r e show ?thesis by (metis (no_types))
qed

lemma mod_d_eq:
  assumes "1 \<le> n" "n \<le> 2 ^ 32"
  shows "mod_d (Some (of_int m / 2)) (of_nat n) = mod_js (Some (of_int m / 2)) (of_nat n)"
proof -
  obtain j where j: "js_rem (of_int m / 2) (of_nat n) = Some (of_int j / 2)" "\<bar>j\<bar> < 2 * int n"
    using js_rem_half[OF assms(1)] by blast
  have s: "rat_of_int j / 2 + of_nat n = of_int (j + 2 * int n) / 2" by (simp add: field_simps)
  have "\<bar>j + 2 * int n\<bar> < 4 * int n" using j(2) by linarith
  moreover have "4 * int n \<le> 4 * 2 ^ 32" using nat_bound_rat[OF assms(2)] by linarith
  moreover have "(4::int) * 2 ^ 32 < 2 ^ 53" by simp
  ultimately have "\<bar>j + 2 * int n\<bar> < 2 ^ 53" by linarith
  then have "fl (of_int (j + 2 * int n) / 2) = of_int (j + 2 * int n) / 2" by (rule fl_half)
  then have "fl (rat_of_int j / 2 + of_nat n) = rat_of_int j / 2 + of_nat n" by (simp only: s)
  then show ?thesis by (simp add: mod_d_def mod_js_def j(1))
qed

lemma mod_d_int_eq:
  assumes "1 \<le> n" "n \<le> 2 ^ 32"
  shows "mod_d (Some (of_int k)) (of_nat n) = mod_js (Some (of_int k)) (of_nat n)"
  using mod_d_eq[OF assms, of "2 * k"] by simp

lemma fl_of_nat_half:
  assumes "n \<le> 2 ^ 32"
  shows "fl (rat_of_nat n / 2) = rat_of_nat n / 2"
proof -
  have "(2::int) ^ 32 < 2 ^ 53" by simp
  with nat_bound_rat[OF assms] have "\<bar>int n\<bar> < 2 ^ 53" by linarith
  then have "fl (rat_of_int (int n) / 2) = rat_of_int (int n) / 2" by (rule fl_half)
  then show ?thesis by simp
qed

lemma normalize_d_eq:
  assumes "items s \<noteq> []" "length (items s) \<le> 2 ^ 32" "\<bar>x\<bar> \<le> 2 ^ 51"
  shows "normalize_d s (Some (of_int x)) = normalize_js s (Some (of_int x))"
proof -
  let ?N = "length (items s)"
  let ?n = "rat_of_nat ?N"
  have n1: "1 \<le> ?N" using assms(1) by (simp add: Suc_le_eq)
  have n: "0 < ?n" using assms(1) by simp
  have nb: "int ?N \<le> 2 ^ 32" by (rule nat_bound_rat[OF assms(2)])
  have h: "fl (?n / 2) = ?n / 2" by (rule fl_of_nat_half[OF assms(2)])
  have s1: "rat_of_int x + ?n / 2 = of_int (2 * x + int ?N) / 2" by (simp add: field_simps)
  have "(2::int) * 2 ^ 51 + 2 ^ 32 < 2 ^ 53" by simp
  with assms(3) nb have "\<bar>2 * x + int ?N\<bar> < 2 ^ 53" by linarith
  then have "fl (of_int (2 * x + int ?N) / 2) = of_int (2 * x + int ?N) / 2" by (rule fl_half)
  then have a: "fl (rat_of_int x + ?n / 2) = of_int (2 * x + int ?N) / 2" by (simp only: s1)
  have m: "mod_d (Some (of_int (2 * x + int ?N) / 2)) ?n = mod_js (Some (of_int (2 * x + int ?N) / 2)) ?n"
    by (rule mod_d_eq[OF n1 assms(2)])
  let ?y = "rat_of_int (2 * x + int ?N) / 2"
  let ?f = "\<lfloor>?y / ?n\<rfloor>"
  have mj: "mod_js (Some ?y) ?n = Some (?y - ?n * of_int ?f)" by (rule mod_js_floor[OF n])
  have rb: "0 \<le> ?y - ?n * of_int ?f" "?y - ?n * of_int ?f < ?n"
    using floor_rem_bounds[OF n, of ?y] by simp_all
  have s2: "?y - ?n * of_int ?f - ?n / 2 = of_int (2 * x - 2 * int ?N * ?f) / 2"
    by (simp add: field_simps)
  define r where "r = ?y - ?n * of_int ?f"
  define z where "z = rat_of_int (2 * x - 2 * int ?N * ?f)"
  have "0 \<le> r" "r < ?n" "r - ?n / 2 = z / 2" using rb s2 by (simp_all only: r_def z_def)
  then have "\<bar>z\<bar> \<le> ?n" by linarith
  then have "\<bar>rat_of_int (2 * x - 2 * int ?N * ?f)\<bar> \<le> ?n" by (simp only: z_def)
  then have "rat_of_int \<bar>2 * x - 2 * int ?N * ?f\<bar> \<le> of_int (int ?N)" by simp
  then have "\<bar>2 * x - 2 * int ?N * ?f\<bar> \<le> int ?N" by (simp only: of_int_le_iff)
  moreover have "(2::int) ^ 32 < 2 ^ 53" by simp
  ultimately have "\<bar>2 * x - 2 * int ?N * ?f\<bar> < 2 ^ 53" using nb by linarith
  then have "fl (of_int (2 * x - 2 * int ?N * ?f) / 2) = of_int (2 * x - 2 * int ?N * ?f) / 2"
    by (rule fl_half)
  then have b: "fl (?y - ?n * of_int ?f - ?n / 2) = ?y - ?n * of_int ?f - ?n / 2"
    by (simp only: s2)
  have "normalize_d s (Some (of_int x)) = Some (?y - ?n * of_int ?f - ?n / 2)"
    by (simp only: normalize_d_def Let_def option.map h a m mj b)
  moreover have "normalize_js s (Some (of_int x)) = Some (?y - ?n * of_int ?f - ?n / 2)"
    by (simp only: normalize_js_def Let_def option.map s1 mj)
  ultimately show ?thesis by simp
qed

lemma update_d_eq:
  assumes "items s \<noteq> []" "length (items s) \<le> 2 ^ 32"
    and "index s = Some (of_int k)" "\<bar>k\<bar> \<le> 2 ^ 51"
  shows "update_d s = update s"
proof -
  have n1: "1 \<le> length (items s)" using assms(1) by (simp add: Suc_le_eq)
  have "(2::int) ^ 51 + 1 < 2 ^ 53" by simp
  with assms(4) have "\<bar>k + 1\<bar> < 2 ^ 53" "\<bar>k - 1\<bar> < 2 ^ 53" by linarith+
  then have f: "fl (of_int (k + 1)) = of_int (k + 1)" "fl (of_int (k - 1)) = of_int (k - 1)"
    by (simp_all only: fl_int)
  have e: "exceeds_bound_d (Some (of_int k)) (of_nat (length (items s)))
             = exceeds_bound (Some (of_int k)) (of_nat (length (items s)))"
    by (simp add: exceeds_bound_d_def exceeds_bound_def rewrap_bound_d_eq[OF n1 assms(2)])
  have g: "rat_of_int k + 1 = of_int (k + 1)" "rat_of_int k - 1 = of_int (k - 1)" by simp_all
  show ?thesis
    by (simp only: update_d_def update_def Let_def assms(3) option.map g f e
        mod_d_int_eq[OF n1 assms(2)])
qed

lemma goTo_d_eq:
  assumes "items s \<noteq> []" "length (items s) \<le> 2 ^ 32"
    and "index s = Some (of_int a)" "\<bar>a\<bar> \<le> 2 ^ 50" "\<bar>b\<bar> \<le> 2 ^ 50"
  shows "goTo_d (of_int b) s = goTo (of_int b) s"
proof -
  let ?n = "rat_of_nat (length (items s))"
  have "(2::int) ^ 50 + 2 ^ 50 = 2 ^ 51" by simp
  with assms(4,5) have ba: "\<bar>b - a\<bar> \<le> 2 ^ 51" by linarith
  moreover have "(2::int) ^ 51 < 2 ^ 53" by simp
  ultimately have "\<bar>b - a\<bar> < 2 ^ 53" by linarith
  then have "fl (of_int (b - a)) = of_int (b - a)" by (rule fl_int)
  then have d: "fl (of_int b - of_int a) = of_int (b - a)" by simp
  have "\<bar>rat_of_int (b - a)\<bar> \<le> of_int (2 ^ 51)" using ba by (simp only: of_int_abs[symmetric] of_int_le_iff)
  moreover have "rat_of_int (2 ^ 51) < 2 ^ 1024" by simp
  ultimately have "\<bar>rat_of_int (b - a)\<bar> < 2 ^ 1024" by linarith
  then have r: "in_range (of_int (b - a)) = Some (of_int (b - a))" by (simp only: in_range_def if_True)
  have nd: "normalize_d s (Some (of_int (b - a))) = normalize_js s (Some (of_int (b - a)))"
    using assms(1,2) ba by (rule normalize_d_eq)
  obtain j where j: "normalize_js s (Some (of_int (b - a))) = Some (of_int j)"
    using normalize_js_int[OF assms(1)] by blast
  obtain y where y: "normalize_js s (Some (of_int (b - a))) = Some y"
      "- (?n / 2) \<le> y" "y < ?n / 2"
    using normalize_js_range[OF assms(1)] by blast
  have nb: "?n \<le> 2 ^ 32"
  proof -
    have "rat_of_nat (length (items s)) \<le> of_nat (2 ^ 32)" using assms(2) by (simp only: of_nat_le_iff)
    then show ?thesis by simp
  qed
  from j y(1) have "y = of_int j" by simp
  with y(2,3) nb have "\<bar>rat_of_int j\<bar> \<le> 2 ^ 31" by simp
  then have "rat_of_int \<bar>j\<bar> \<le> of_int (2 ^ 31)" by simp
  then have jb: "\<bar>j\<bar> \<le> 2 ^ 31" by (simp only: of_int_le_iff)
  have "(2::int) ^ 50 + 2 ^ 31 \<le> 2 ^ 51" "(2::int) ^ 51 < 2 ^ 53" by simp_all
  with assms(4) jb have aj: "\<bar>a + j\<bar> \<le> 2 ^ 51" "\<bar>a + j\<bar> < 2 ^ 53" by linarith+
  have "fl (of_int (a + j)) = of_int (a + j)" using aj(2) by (rule fl_int)
  then have s: "fl (of_int a + of_int j) = of_int (a + j)" by simp
  have u: "update_d (s\<lparr>index := Some (of_int (a + j))\<rparr>) = update (s\<lparr>index := Some (of_int (a + j))\<rparr>)"
    using assms(1,2) aj(1) by (intro update_d_eq) simp_all
  have "goTo_d (of_int b) s = update_d (s\<lparr>index := Some (of_int (a + j))\<rparr>)"
    by (simp only: goTo_d_def Let_def assms(3) option.case d r nd j option.map s)
  moreover have "goTo (of_int b) s = update (s\<lparr>index := Some (of_int (a + j))\<rparr>)"
    using j by (simp add: goTo_def Let_def assms(3))
  ultimately show ?thesis by (simp only: u)
qed

lemma next_d_eq:
  assumes "items s \<noteq> []" "length (items s) \<le> 2 ^ 32"
    and "index s = Some (of_int a)" "\<bar>a\<bar> \<le> 2 ^ 39"
  shows "next_d s = next_js s"
proof -
  have "(2::int) ^ 39 + 1 \<le> 2 ^ 50" "(2::int) ^ 39 \<le> 2 ^ 50" "(2::int) ^ 50 < 2 ^ 53" by simp_all
  with assms(4) have b: "\<bar>a + 1\<bar> \<le> 2 ^ 50" "\<bar>a\<bar> \<le> 2 ^ 50" "\<bar>a + 1\<bar> < 2 ^ 53" by linarith+
  have "fl (of_int (a + 1)) = of_int (a + 1)" using b(3) by (rule fl_int)
  then have f: "fl (of_int a + 1) = of_int (a + 1)" by simp
  have "goTo_d (of_int (a + 1)) s = goTo (of_int (a + 1)) s"
    using assms(1,2,3) b(2,1) by (rule goTo_d_eq)
  then show ?thesis
    by (simp only: next_d_def assms(3) option.case f next_js_goTo[OF assms(3)])
qed

lemma prev_d_eq:
  assumes "items s \<noteq> []" "length (items s) \<le> 2 ^ 32"
    and "index s = Some (of_int a)" "\<bar>a\<bar> \<le> 2 ^ 39"
  shows "prev_d s = prev_js s"
proof -
  have "(2::int) ^ 39 + 1 \<le> 2 ^ 50" "(2::int) ^ 39 \<le> 2 ^ 50" "(2::int) ^ 50 < 2 ^ 53" by simp_all
  with assms(4) have b: "\<bar>a - 1\<bar> \<le> 2 ^ 50" "\<bar>a\<bar> \<le> 2 ^ 50" "\<bar>a - 1\<bar> < 2 ^ 53" by linarith+
  have "fl (of_int (a - 1)) = of_int (a - 1)" using b(3) by (rule fl_int)
  then have f: "fl (of_int a - 1) = of_int (a - 1)" by simp
  have "goTo_d (of_int (a - 1)) s = goTo (of_int (a - 1)) s"
    using assms(1,2,3) b(2,1) by (rule goTo_d_eq)
  then show ?thesis
    by (simp only: prev_d_def assms(3) option.case f prev_js_goTo[OF assms(3)])
qed

lemma exec_d_eq:
  assumes "items s \<noteq> []" "length (items s) \<le> 2 ^ 32"
    and "index s = Some (of_int a)" "\<bar>a\<bar> \<le> 2 ^ 39" "moderate c"
  shows "exec_d c s = exec c s"
proof (cases c)
  case Next
  then show ?thesis using next_d_eq[OF assms(1-4)] by simp
next
  case Prev
  then show ?thesis using prev_d_eq[OF assms(1-4)] by simp
next
  case (GoTo b)
  have "(2::int) ^ 39 \<le> 2 ^ 50" by simp
  with assms(4) have "\<bar>a\<bar> \<le> 2 ^ 50" by linarith
  moreover have "\<bar>b\<bar> \<le> 2 ^ 50" using assms(5) GoTo by simp
  ultimately have "goTo_d (of_int b) s = goTo (of_int b) s"
    using assms(1,2,3) by (intro goTo_d_eq)
  then show ?thesis using GoTo by simp
qed

lemma Slider3D_d_eq:
  assumes "Slider3D_d qs arg ls = (Inr s0, ls')" "items s0 \<noteq> []" "length (items s0) \<le> 2 ^ 32"
  shows "Slider3D qs arg ls = (Inr s0, ls')"
proof -
  obtain el where el: "resolve_root qs arg = Inr el" "s0 = update_d (init_fields el)"
      "ls' = bindEvents (init_fields el) ls"
    using assms(1) by (auto simp: Slider3D_d_def split: sum.splits)
  have l: "length (items (update_d (init_fields el))) = length (items (init_fields el))"
    by (simp add: update_d_def Let_def)
  have ne: "items (init_fields el) \<noteq> []" using assms(2) l el(2) by auto
  have le: "length (items (init_fields el)) \<le> 2 ^ 32" using assms(3) l el(2) by simp
  have i: "index (init_fields el) = Some (of_int 0)" by (simp add: init_fields_def)
  have "update_d (init_fields el) = update (init_fields el)"
    using ne le i by (rule update_d_eq) simp
  then show ?thesis using el by (simp add: Slider3D_def)
qed

lemma run_d_snoc: "run_d (cs @ [c]) s = exec_d c (run_d cs s)"
  by (simp add: run_d_def)

lemma abs_index_bound:
  assumes "1 \<le> n" "n \<le> 2 ^ 32" "\<bar>rat_of_int k\<bar> \<le> rewrap_bound (of_nat n)"
  shows "\<bar>k\<bar> \<le> 2 ^ 39"
proof -
  have "\<bar>rat_of_int k\<bar> \<le> 2 ^ 39" using rewrap_bound_le[OF assms(1,2)] assms(3) by linarith
  then have "rat_of_int \<bar>k\<bar> \<le> of_int (2 ^ 39)" by simp
  then show ?thesis by (simp only: of_int_le_iff)
qed

lemma run_d_eq:
  assumes "Slider3D qs arg ls = (Inr s0, ls')" "items s0 \<noteq> []" "length (items s0) \<le> 2 ^ 32"
    and "list_all moderate cs"
  shows "run_d cs s0 = run cs s0"
  using assms(4)
proof (induction cs rule: rev_induct)
  case Nil
  show ?case by (simp add: run_d_def run_def)
next
  case (snoc c cs)
  then have IH: "run_d cs s0 = run cs s0" and c: "moderate c" by simp_all
  obtain k where k: "index (run cs s0) = Some (of_int k)"
      "\<bar>rat_of_int k\<bar> \<le> rewrap_bound (of_nat (length (items s0)))"
      "length (items (run cs s0)) = length (items s0)"
    using reachable_post[OF assms(1,2), of cs] by blast
  have n1: "1 \<le> length (items s0)" using assms(2) by (simp add: Suc_le_eq)
  have kb: "\<bar>k\<bar> \<le> 2 ^ 39" by (rule abs_index_bound[OF n1 assms(3) k(2)])
  have ne: "items (run cs s0) \<noteq> []" using k(3) assms(2) by auto
  have le: "length (items (run cs s0)) \<le> 2 ^ 32" using k(3) assms(3) by simp
  have "exec_d c (run cs s0) = exec c (run cs s0)"
    using ne le k(1) kb c by (rule exec_d_eq)
  then show ?case by (simp add: run_d_snoc run_snoc IH)
qed



lemma example_slider_d: "n \<le> 2 ^ 32 \<Longrightarrow> update_d (init_fields (plain_root n)) = example_slider n"
proof (cases "n = 0")
  case True
  then show ?thesis
    by (simp add: example_slider_def update_d_def update_def mod_d_def mod_js_def js_rem_def
        exceeds_bound_d_def exceeds_bound_def init_fields_def plain_root_def)
next
  case False
  assume n: "n \<le> 2 ^ 32"
  have "update_d (init_fields (plain_root n)) = update (init_fields (plain_root n))"
  proof (rule update_d_eq)
    show "items (init_fields (plain_root n)) \<noteq> []"
      using False by (simp add: init_fields_def plain_root_def)
    show "length (items (init_fields (plain_root n))) \<le> 2 ^ 32"
      using n by (simp add: init_fields_def plain_root_def)
    show "index (init_fields (plain_root n)) = Some (of_int 0)" by (simp add: init_fields_def)
    show "\<bar>0::int\<bar> \<le> 2 ^ 51" by simp
  qed
  then show ?thesis by (simp add: example_slider_def)
qed

lemma example_slider_constructed_d:
  "n \<le> 2 ^ 32 \<Longrightarrow> Slider3D_d qs (Elem (plain_root n)) ls =
     (Inr (example_slider n), bindEvents (init_fields (plain_root n)) ls)"
  by (simp add: Slider3D_d_def resolve_root_def example_slider_d)

subsection \<open>Targets beyond the exact range\<close>

lemma in_range_fl_int:
  assumes "\<bar>x\<bar> < 2 ^ 53"
  shows "in_range (fl (of_int x)) = Some (of_int x)"
proof -
  have f: "fl (of_int x) = of_int x" using assms by (rule fl_int)
  have "\<bar>rat_of_int x\<bar> < of_int (2 ^ 53)" using assms by (simp only: of_int_abs[symmetric] of_int_less_iff)
  moreover have "rat_of_int (2 ^ 53) < 2 ^ 1024" by simp
  ultimately have "\<bar>rat_of_int x\<bar> < 2 ^ 1024" by linarith
  then show ?thesis by (simp only: f in_range_def if_True)
qed

lemma update_d_half:
  assumes "items s \<noteq> []" "length (items s) \<le> 2 ^ 32"
    and "index s = Some (of_int m / 2)" "\<bar>m\<bar> \<le> 2 ^ 52"
  shows "update_d s = update s"
proof -
  have n1: "1 \<le> length (items s)" using assms(1) by (simp add: Suc_le_eq)
  have "(2::int) ^ 52 + 2 < 2 ^ 53" by simp
  with assms(4) have "\<bar>m + 2\<bar> < 2 ^ 53" "\<bar>m - 2\<bar> < 2 ^ 53" by linarith+
  then have f: "fl (of_int (m + 2) / 2) = of_int (m + 2) / 2" "fl (of_int (m - 2) / 2) = of_int (m - 2) / 2"
    by (simp_all only: fl_half)
  have g: "rat_of_int m / 2 + 1 = of_int (m + 2) / 2" "rat_of_int m / 2 - 1 = of_int (m - 2) / 2"
    by (simp_all add: field_simps)
  have e: "exceeds_bound_d (Some (of_int m / 2)) (of_nat (length (items s)))
             = exceeds_bound (Some (of_int m / 2)) (of_nat (length (items s)))"
    by (simp add: exceeds_bound_d_def exceeds_bound_def rewrap_bound_d_eq[OF n1 assms(2)])
  show ?thesis
    by (simp only: update_d_def update_def Let_def assms(3) option.map g f e
        mod_d_eq[OF n1 assms(2)])
qed

lemma normalize_d_rounded:
  assumes "items s \<noteq> []" "length (items s) \<le> 2 ^ 32"
    and "fl (x + of_nat (length (items s)) / 2) = of_int m / 2"
  shows "normalize_d s (Some x) =
           map_option (\<lambda>r. r - of_nat (length (items s)) / 2)
             (mod_js (Some (of_int m / 2)) (of_nat (length (items s))))"
proof -
  let ?N = "length (items s)"
  let ?n = "rat_of_nat ?N"
  let ?y = "rat_of_int m / 2"
  let ?f = "\<lfloor>?y / ?n\<rfloor>"
  have n1: "1 \<le> ?N" using assms(1) by (simp add: Suc_le_eq)
  have n: "0 < ?n" using assms(1) by simp
  have nb: "int ?N \<le> 2 ^ 32" by (rule nat_bound_rat[OF assms(2)])
  have h: "fl (?n / 2) = ?n / 2" by (rule fl_of_nat_half[OF assms(2)])
  have m: "mod_d (Some ?y) ?n = mod_js (Some ?y) ?n" by (rule mod_d_eq[OF n1 assms(2)])
  have mj: "mod_js (Some ?y) ?n = Some (?y - ?n * of_int ?f)" by (rule mod_js_floor[OF n])
  have rb: "0 \<le> ?y - ?n * of_int ?f" "?y - ?n * of_int ?f < ?n"
    using floor_rem_bounds[OF n, of ?y] by simp_all
  have s2: "?y - ?n * of_int ?f - ?n / 2 = of_int (m - 2 * int ?N * ?f - int ?N) / 2"
    by (simp add: field_simps)
  define r where "r = ?y - ?n * of_int ?f"
  define z where "z = rat_of_int (m - 2 * int ?N * ?f - int ?N)"
  have "0 \<le> r" "r < ?n" "r - ?n / 2 = z / 2" using rb s2 by (simp_all only: r_def z_def)
  then have "\<bar>z\<bar> \<le> ?n" by linarith
  then have "\<bar>rat_of_int (m - 2 * int ?N * ?f - int ?N)\<bar> \<le> ?n" by (simp only: z_def)
  then have "rat_of_int \<bar>m - 2 * int ?N * ?f - int ?N\<bar> \<le> of_int (int ?N)" by simp
  then have "\<bar>m - 2 * int ?N * ?f - int ?N\<bar> \<le> int ?N" by (simp only: of_int_le_iff)
  moreover have "(2::int) ^ 32 < 2 ^ 53" by simp
  ultimately have "\<bar>m - 2 * int ?N * ?f - int ?N\<bar> < 2 ^ 53" using nb by linarith
  then have "fl (of_int (m - 2 * int ?N * ?f - int ?N) / 2) = of_int (m - 2 * int ?N * ?f - int ?N) / 2"
    by (rule fl_half)
  then have b: "fl (?y - ?n * of_int ?f - ?n / 2) = ?y - ?n * of_int ?f - ?n / 2"
    by (simp only: s2)
  show ?thesis
    by (simp only: normalize_d_def Let_def option.map h assms(3) m mj b)
qed

lemma goTo_d_rounded:
  assumes "items s \<noteq> []" "length (items s) \<le> 2 ^ 32"
    and "index s = Some i" "in_range (fl (t - i)) = Some x"
    and "fl (x + of_nat (length (items s)) / 2) = of_int m / 2"
    and "mod_js (Some (of_int m / 2)) (of_nat (length (items s))) = Some r"
    and "fl (i + (r - of_nat (length (items s)) / 2)) = of_int j / 2" "\<bar>j\<bar> \<le> 2 ^ 52"
  shows "goTo_d t s = update (s\<lparr>index := Some (of_int j / 2)\<rparr>)"
proof -
  have n: "normalize_d s (Some x) = Some (r - of_nat (length (items s)) / 2)"
    by (simp only: normalize_d_rounded[OF assms(1,2,5)] assms(6) option.map)
  have "goTo_d t s = update_d (s\<lparr>index := Some (of_int j / 2)\<rparr>)"
    by (simp only: goTo_d_def Let_def assms(3,4,7) option.case n option.map)
  moreover have "update_d (s\<lparr>index := Some (of_int j / 2)\<rparr>) = update (s\<lparr>index := Some (of_int j / 2)\<rparr>)"
    using assms(1,2,8) by (intro update_d_half) simp_all
  ultimately show ?thesis by simp
qed

lemma fl_tie_down: "fl (2 ^ 52 + 1 + 3 / 2) = 2 ^ 52 + 2"
  by code_simp

lemma fl_near_down: "fl (2 ^ 53 - 1 + 3 / 2) = 2 ^ 53"
  by code_simp

lemma fl_tie_even: "fl (2 ^ 53 + 1) = 2 ^ 53"
  by code_simp


lemma example_goTo_large:
  "goTo_d (2 ^ 52 + 1) (example_slider 3) = update ((example_slider 3)\<lparr>index := Some (- (3 / 2))\<rparr>)"
proof -
  have a: "items (example_slider 3) \<noteq> []" by (rule example_slider_items) simp
  have l: "length (items (example_slider 3)) \<le> 2 ^ 32" by simp
  have i: "index (example_slider 3) = Some 0" using example_slider_index[of 3] by simp
  have r: "in_range (fl (2 ^ 52 + 1 - 0)) = Some (2 ^ 52 + 1)"
    using in_range_fl_int[of "2 ^ 52 + 1"] by simp
  have f: "fl (2 ^ 52 + 1 + of_nat (length (items (example_slider 3))) / 2) = of_int (2 ^ 53 + 4) / 2"
    using fl_tie_down by simp
  have "mod_js (Some (rat_of_int (2 ^ 52 + 2))) (of_nat 3) = Some (of_int ((2 ^ 52 + 2) mod int 3))"
    by (rule mod_js_int) simp
  then have m: "mod_js (Some (of_int (2 ^ 53 + 4) / 2)) (of_nat (length (items (example_slider 3)))) = Some 0"
    by simp
  have h: "fl (0 + (0 - of_nat (length (items (example_slider 3))) / 2)) = of_int (- 3) / 2"
    using fl_half[of "- 3"] by simp
  have "goTo_d (2 ^ 52 + 1) (example_slider 3)
          = update ((example_slider 3)\<lparr>index := Some (of_int (- 3) / 2)\<rparr>)"
    using a l i r f m h by (rule goTo_d_rounded) simp
  then show ?thesis by simp
qed

lemma example_goTo_near:
  "goTo_d (2 ^ 53 - 1) (example_slider 3) = update ((example_slider 3)\<lparr>index := Some (1 / 2)\<rparr>)"
proof -
  have a: "items (example_slider 3) \<noteq> []" by (rule example_slider_items) simp
  have l: "length (items (example_slider 3)) \<le> 2 ^ 32" by simp
  have i: "index (example_slider 3) = Some 0" using example_slider_index[of 3] by simp
  have r: "in_range (fl (2 ^ 53 - 1 - 0)) = Some (2 ^ 53 - 1)"
    using in_range_fl_int[of "2 ^ 53 - 1"] by simp
  have f: "fl (2 ^ 53 - 1 + of_nat (length (items (example_slider 3))) / 2) = of_int (2 ^ 54) / 2"
    using fl_near_down by simp
  have "mod_js (Some (rat_of_int (2 ^ 53))) (of_nat 3) = Some (of_int ((2 ^ 53) mod int 3))"
    by (rule mod_js_int) simp
  then have m: "mod_js (Some (of_int (2 ^ 54) / 2)) (of_nat (length (items (example_slider 3)))) = Some 2"
    by simp
  have h: "fl (0 + (2 - of_nat (length (items (example_slider 3))) / 2)) = of_int 1 / 2"
    using fl_half[of 1] by simp
  have "goTo_d (2 ^ 53 - 1) (example_slider 3)
          = update ((example_slider 3)\<lparr>index := Some (of_int 1 / 2)\<rparr>)"
    using a l i r f m h by (rule goTo_d_rounded) simp
  then show ?thesis by simp
qed

lemma example_goTo_even:
  "goTo_d (2 ^ 53) (example_slider 2) = update ((example_slider 2)\<lparr>index := Some (- 1)\<rparr>)"
proof -
  have a: "items (example_slider 2) \<noteq> []" by (rule example_slider_items) simp
  have l: "length (items (example_slider 2)) \<le> 2 ^ 32" by simp
  have i: "index (example_slider 2) = Some 0" using example_slider_index[of 2] by simp
  have "\<bar>rat_of_int (2 ^ 53)\<bar> < 2 ^ 1024" by simp
  moreover have "fl (rat_of_int 1 * 2 powi 53) = rat_of_int 1 * 2 powi 53" by (rule fl_exact) simp
  ultimately have r: "in_range (fl (2 ^ 53 - 0)) = Some (2 ^ 53)"
    by (simp add: in_range_def)
  have f: "fl (2 ^ 53 + of_nat (length (items (example_slider 2))) / 2) = of_int (2 ^ 54) / 2"
    using fl_tie_even by simp
  have "mod_js (Some (rat_of_int (2 ^ 53))) (of_nat 2) = Some (of_int ((2 ^ 53) mod int 2))"
    by (rule mod_js_int) simp
  then have m: "mod_js (Some (of_int (2 ^ 54) / 2)) (of_nat (length (items (example_slider 2)))) = Some 0"
    by simp
  have h: "fl (0 + (0 - of_nat (length (items (example_slider 2))) / 2)) = of_int (- 2) / 2"
    using fl_half[of "- 2"] by simp
  have "goTo_d (2 ^ 53) (example_slider 2)
          = update ((example_slider 2)\<lparr>index := Some (of_int (- 2) / 2)\<rparr>)"
    using a l i r f m h by (rule goTo_d_rounded) simp
  then show ?thesis by simp
qed

section \<open>The properties\<close>




text \<open>
  Claim C2, as amended. The statement is about the double arithmetic of the code. With at
  least one item (and fewer than \<open>2\<^sup>3\<^sup>2\<close>) and integers \<open>a\<close> and \<open>b\<close> of absolute value at most
  \<open>2\<^sup>5\<^sup>0\<close>, \<^verbatim>\<open>goTo(b)\<close> called when the index is \<open>a\<close> leaves an integer index \<open>k\<close> with \<open>k - a\<close>
  congruent to \<open>b - a\<close> modulo the number of items, so \<open>k\<close> is congruent to \<open>b\<close>.
\<close>

theorem goTo_congruent:
  assumes "items s \<noteq> []" "length (items s) \<le> 2 ^ 32"
    and "index s = Some (of_int a)" "\<bar>a\<bar> \<le> 2 ^ 50" "\<bar>b\<bar> \<le> 2 ^ 50"
  shows "\<exists>k. index (goTo_d (of_int b) s) = Some (of_int k)
           \<and> (k - a) mod int (length (items s)) = (b - a) mod int (length (items s))
           \<and> k mod int (length (items s)) = b mod int (length (items s))"
proof -
  obtain k where k: "index (goTo (of_int b) s) = Some (of_int k)"
      "k mod int (length (items s)) = b mod int (length (items s))"
    using goTo_post[OF assms(1,3)] by blast
  from k(2) have "(k - a) mod int (length (items s)) = (b - a) mod int (length (items s))"
    by (rule mod_diff_cong) simp
  with k show ?thesis by (auto simp: goTo_d_eq[OF assms])
qed

theorem goTo_congruent_witness:
  "(items (example_slider 3) \<noteq> [] \<and> length (items (example_slider 3)) \<le> 2 ^ 32
     \<and> index (example_slider 3) = Some (of_int 0) \<and> \<bar>0::int\<bar> \<le> 2 ^ 50 \<and> \<bar>5::int\<bar> \<le> 2 ^ 50)
   \<and> (\<exists>k. index (goTo_d (of_int 5) (example_slider 3)) = Some (of_int k)
         \<and> (k - 0) mod int (length (items (example_slider 3)))
             = (5 - 0) mod int (length (items (example_slider 3)))
         \<and> k mod int (length (items (example_slider 3)))
             = 5 mod int (length (items (example_slider 3))))"
proof -
  have a: "items (example_slider 3) \<noteq> []" by (rule example_slider_items) simp
  have l: "length (items (example_slider 3)) \<le> 2 ^ 32" by simp
  have b: "index (example_slider 3) = Some (of_int 0)" by (rule example_slider_index)
  have z: "\<bar>0::int\<bar> \<le> 2 ^ 50" and f: "\<bar>5::int\<bar> \<le> 2 ^ 50" by simp_all
  show ?thesis
    by (rule conjI[OF conjI[OF a conjI[OF l conjI[OF b conjI[OF z f]]]]
          goTo_congruent[OF a l b z f]])
qed

theorem goTo_congruent_counterexample:
  "index (example_slider 2) = Some 0
   \<and> index (goTo_d (2 ^ 53) (example_slider 2)) = Some (- 1)
   \<and> (- 1 - 0) mod int (length (items (example_slider 2)))
        \<noteq> (2 ^ 53 - 0) mod int (length (items (example_slider 2)))
   \<and> index (example_slider 3) = Some 0
   \<and> index (goTo_d (2 ^ 52 + 1) (example_slider 3)) = Some (- (3 / 2))
   \<and> rat_of_int \<lfloor>- (3 / 2) :: rat\<rfloor> \<noteq> - (3 / 2)"
proof -
  have a: "index (example_slider 2) = Some 0" using example_slider_index[of 2] by simp
  have "index (update ((example_slider 2)\<lparr>index := Some (- 1)\<rparr>)) = Some (- 1)" by code_simp
  then have b: "index (goTo_d (2 ^ 53) (example_slider 2)) = Some (- 1)"
    by (simp only: example_goTo_even)
  have c: "(- 1 - 0) mod int (length (items (example_slider 2)))
        \<noteq> (2 ^ 53 - 0) mod int (length (items (example_slider 2)))"
    by simp
  have d: "index (example_slider 3) = Some 0" using example_slider_index[of 3] by simp
  have "index (update ((example_slider 3)\<lparr>index := Some (- (3 / 2))\<rparr>)) = Some (- (3 / 2))"
    by code_simp
  then have e: "index (goTo_d (2 ^ 52 + 1) (example_slider 3)) = Some (- (3 / 2))"
    by (simp only: example_goTo_large)
  have f: "rat_of_int \<lfloor>- (3 / 2) :: rat\<rfloor> \<noteq> - (3 / 2)" by code_simp
  show ?thesis by (rule conjI[OF a conjI[OF b conjI[OF c conjI[OF d conjI[OF e f]]]]])
qed

text \<open>
  Claim C3, as amended. The statement is about the double arithmetic of the code. For a
  carousel with at least one item (and fewer than \<open>2\<^sup>3\<^sup>2\<close>), after construction and after any
  sequence of \<^verbatim>\<open>next\<close>, \<^verbatim>\<open>prev\<close> and \<^verbatim>\<open>goTo\<close> calls whose targets are integers of absolute
  value at most \<open>2\<^sup>5\<^sup>0\<close>, the index is an integer \<open>k\<close> and exactly one item carries
  \<^verbatim>\<open>in-view\<close>: the item at position \<open>k mod N\<close>, the remainder taken non-negative.
\<close>

theorem in_view_invariant:
  assumes "Slider3D_d qs arg ls = (Inr s0, ls')" "items s0 \<noteq> []" "length (items s0) \<le> 2 ^ 32"
    and "list_all moderate cs"
  shows "\<exists>k. index (run_d cs s0) = Some (of_int k)
           \<and> length (items (run_d cs s0)) = length (items s0)
           \<and> flagged ''in-view'' (items (run_d cs s0)) = [nat (k mod int (length (items s0)))]"
proof -
  have c: "Slider3D qs arg ls = (Inr s0, ls')" by (rule Slider3D_d_eq[OF assms(1-3)])
  show ?thesis
    using reachable_post[OF c assms(2), of cs] by (auto simp: run_d_eq[OF c assms(2-4)])
qed

theorem in_view_invariant_witness:
  "(Slider3D_d (\<lambda>sel. None) (Elem (plain_root 3)) [] =
      (Inr (example_slider 3), bindEvents (init_fields (plain_root 3)) [])
     \<and> items (example_slider 3) \<noteq> [] \<and> length (items (example_slider 3)) \<le> 2 ^ 32
     \<and> list_all moderate [Next, GoTo 5, Prev])
   \<and> (\<exists>k. index (run_d [Next, GoTo 5, Prev] (example_slider 3)) = Some (of_int k)
         \<and> length (items (run_d [Next, GoTo 5, Prev] (example_slider 3)))
             = length (items (example_slider 3))
         \<and> flagged ''in-view'' (items (run_d [Next, GoTo 5, Prev] (example_slider 3)))
             = [nat (k mod int (length (items (example_slider 3))))])
   \<and> index (run_d [Next, GoTo 5, Prev] (example_slider 3)) = Some 1"
proof -
  have a: "Slider3D_d (\<lambda>sel. None) (Elem (plain_root 3)) [] =
      (Inr (example_slider 3), bindEvents (init_fields (plain_root 3)) [])"
    by (rule example_slider_constructed_d) simp
  have b: "items (example_slider 3) \<noteq> []" by (rule example_slider_items) simp
  have l: "length (items (example_slider 3)) \<le> 2 ^ 32" by simp
  have m: "list_all moderate [Next, GoTo 5, Prev]" by simp
  have e: "Slider3D (\<lambda>sel. None) (Elem (plain_root 3)) [] =
      (Inr (example_slider 3), bindEvents (init_fields (plain_root 3)) [])"
    by (rule example_slider_constructed)
  have "index (run [Next, GoTo 5, Prev] (example_slider 3)) = Some 1" by code_simp
  then have c: "index (run_d [Next, GoTo 5, Prev] (example_slider 3)) = Some 1"
    by (simp only: run_d_eq[OF e b l m])
  show ?thesis
    by (rule conjI[OF conjI[OF a conjI[OF b conjI[OF l m]]]
          conjI[OF in_view_invariant[OF a b l m] c]])
qed

theorem in_view_invariant_counterexample:
  "Slider3D_d (\<lambda>sel. None) (Elem (plain_root 3)) [] =
      (Inr (example_slider 3), bindEvents (init_fields (plain_root 3)) [])
   \<and> index (run_d [GoTo (2 ^ 53 - 1)] (example_slider 3)) = Some (1 / 2)
   \<and> flagged ''in-view'' (items (run_d [GoTo (2 ^ 53 - 1)] (example_slider 3))) = []"
proof -
  have a: "Slider3D_d (\<lambda>sel. None) (Elem (plain_root 3)) [] =
      (Inr (example_slider 3), bindEvents (init_fields (plain_root 3)) [])"
    by (rule example_slider_constructed_d) simp
  have r: "run_d [GoTo (2 ^ 53 - 1)] (example_slider 3)
             = update ((example_slider 3)\<lparr>index := Some (1 / 2)\<rparr>)"
    using example_goTo_near by (simp add: run_d_def)
  have "index (update ((example_slider 3)\<lparr>index := Some (1 / 2)\<rparr>)) = Some (1 / 2)" by code_simp
  then have b: "index (run_d [GoTo (2 ^ 53 - 1)] (example_slider 3)) = Some (1 / 2)"
    by (simp only: r)
  have "flagged ''in-view'' (items (update ((example_slider 3)\<lparr>index := Some (1 / 2)\<rparr>))) = []"
    by code_simp
  then have c: "flagged ''in-view'' (items (run_d [GoTo (2 ^ 53 - 1)] (example_slider 3))) = []"
    by (simp only: r)
  show ?thesis by (rule conjI[OF a conjI[OF b c]])
qed

text \<open>
  Claim C4. With at least one item and an integer index \<open>k\<close> of absolute value above
  \<open>N * ceil(100 / N)\<close>, \<^verbatim>\<open>update()\<close> replaces the index by \<open>k mod N\<close>, a value from \<open>0\<close> to
  \<open>N - 1\<close>, publishes it, and marks as \<^verbatim>\<open>in-view\<close> exactly the item at position \<open>k mod N\<close>,
  the position that \<open>k\<close> denotes. Repeated \<^verbatim>\<open>next()\<close> calls reach this collapse: on a
  freshly constructed carousel with at least two items, \<open>N * ceil(100 / N)\<close> calls bring the
  index to the bound without passing it (upwards, or downwards when there are exactly two
  items), and one more call collapses the index to \<open>1\<close> with the item at position \<open>1\<close> in
  view. (With a single item \<^verbatim>\<open>next()\<close> leaves the index at \<open>0\<close>, so the bound is never
  passed.)
\<close>

theorem rewrap_collapse:
  "(items s \<noteq> [] \<and> index s = Some (of_int k)
      \<and> rewrap_bound (of_nat (length (items s))) < \<bar>rat_of_int k\<bar>
      \<longrightarrow> index (update s) = Some (of_int (k mod int (length (items s))))
          \<and> view_index (update s) = Some (of_int (k mod int (length (items s))))
          \<and> 0 \<le> k mod int (length (items s)) \<and> k mod int (length (items s)) < int (length (items s))
          \<and> flagged ''in-view'' (items (update s)) = [nat (k mod int (length (items s)))])
   \<and> (Slider3D qs arg ls = (Inr s0, ls') \<and> 2 \<le> length (items s0)
      \<longrightarrow> index ((next_js ^^ (length (items s0) * nat \<lceil>100 / rat_of_nat (length (items s0))\<rceil>)) s0)
            = Some (of_int ((if length (items s0) = 2 then - 1 else 1)
                 * int (length (items s0) * nat \<lceil>100 / rat_of_nat (length (items s0))\<rceil>)))
          \<and> index ((next_js ^^ Suc (length (items s0) * nat \<lceil>100 / rat_of_nat (length (items s0))\<rceil>)) s0)
            = Some 1
          \<and> flagged ''in-view''
              (items ((next_js ^^ Suc (length (items s0) * nat \<lceil>100 / rat_of_nat (length (items s0))\<rceil>)) s0))
            = [1])"
proof (intro conjI impI; (elim conjE)?)
  assume ne: "items s \<noteq> []" and i: "index s = Some (of_int k)"
    and ex: "rewrap_bound (of_nat (length (items s))) < \<bar>rat_of_int k\<bar>"
  have n: "0 < int (length (items s))" using ne by simp
  show u: "index (update s) = Some (of_int (k mod int (length (items s))))"
    using index_update_int[OF ne i] ex by simp
  then show "view_index (update s) = Some (of_int (k mod int (length (items s))))" by simp
  show "0 \<le> k mod int (length (items s))" using n by simp
  show "k mod int (length (items s)) < int (length (items s))" using n by simp
  show "flagged ''in-view'' (items (update s)) = [nat (k mod int (length (items s)))]"
    by (rule flagged_in_view_update[OF ne i])
next
  assume c: "Slider3D qs arg ls = (Inr s0, ls')" and n2: "2 \<le> length (items s0)"
  define n where "n = length (items s0)"
  define B where "B = n * nat \<lceil>100 / rat_of_nat n\<rceil>"
  define d :: int where "d = (if n = 2 then - 1 else 1)"
  have i0: "index s0 = Some (of_int 0)" by (rule constructed_index[OF c])
  have dabs: "\<bar>d\<bar> = 1" by (simp add: d_def)
  have rb: "rewrap_bound (of_nat n) = of_nat B" by (simp only: B_def rewrap_bound_nat)
  have inb: "\<bar>rat_of_int (0 + d * int i)\<bar> \<le> rewrap_bound (of_nat (length (items s0)))"
    if "i \<le> B" for i
  proof -
    have "\<bar>d * int i\<bar> = int i" using dabs by (simp add: abs_mult)
    then have "\<bar>rat_of_int (0 + d * int i)\<bar> = of_nat i"
      by (metis add_0 of_int_abs of_int_of_nat_eq)
    then show ?thesis using that by (simp add: rb n_def[symmetric])
  qed
  have d': "d = (if length (items s0) = 2 then - 1 else 1)" by (simp add: d_def n_def)
  have fb: "index ((next_js ^^ B) s0) = Some (of_int (0 + d * int B))"
      "length (items ((next_js ^^ B) s0)) = length (items s0)"
    using funpow_next_js_in_bound[OF n2 i0 d' inb] by blast+
  show "index ((next_js ^^ (length (items s0) * nat \<lceil>100 / rat_of_nat (length (items s0))\<rceil>)) s0)
            = Some (of_int ((if length (items s0) = 2 then - 1 else 1)
                 * int (length (items s0) * nat \<lceil>100 / rat_of_nat (length (items s0))\<rceil>)))"
    using fb(1) by (simp add: B_def n_def d_def)
  define t where "t = (next_js ^^ B) s0"
  have t: "index t = Some (of_int (d * int B))" "length (items t) = n"
    using fb by (simp_all add: t_def n_def)
  have nt: "2 \<le> length (items t)" using t(2) n2 n_def by simp
  have net: "items t \<noteq> []" using nt by auto
  have dt: "d = (if length (items t) = 2 then - 1 else 1)" by (simp add: d_def t(2))
  have "\<bar>d * int B + d\<bar> = int B + 1"
  proof (cases "n = 2")
    case True
    then show ?thesis by (simp add: d_def)
  next
    case False
    then show ?thesis by (simp add: d_def)
  qed
  then have "\<bar>rat_of_int (d * int B + d)\<bar> = of_nat B + 1"
    by (metis of_int_abs of_int_add of_int_of_nat_eq of_int_1)
  then have beyond: "rewrap_bound (of_nat (length (items t))) < \<bar>rat_of_int (d * int B + d)\<bar>"
    by (simp add: t(2) rb)
  have "index (next_js t) = Some (of_int ((d * int B + d) mod int (length (items t))))"
    using nt t(1) dt beyond by (rule next_js_beyond_bound)
  moreover have "(d * int B + d) mod int n = 1"
    unfolding B_def using n2 by (intro collapse_remainder) (simp_all add: n_def d_def)
  ultimately have i1: "index (next_js t) = Some (of_int 1)" by (simp add: t(2))
  have e: "(next_js ^^ Suc B) s0 = next_js t" by (simp add: t_def)
  show "index ((next_js ^^ Suc (length (items s0) * nat \<lceil>100 / rat_of_nat (length (items s0))\<rceil>)) s0)
            = Some 1"
    using i1 e by (simp add: B_def n_def)
  obtain k where k: "index (next_js t) = Some (of_int k)"
      "flagged ''in-view'' (items (next_js t)) = [nat (k mod int (length (items t)))]"
    using next_js_post[OF net t(1)] by blast
  from k(1) i1 have "k = 1" by simp
  moreover have "(1::int) mod int n = 1" using n2 n_def by simp
  ultimately have "flagged ''in-view'' (items (next_js t)) = [1]" using k(2) t(2) by simp
  then show "flagged ''in-view''
              (items ((next_js ^^ Suc (length (items s0) * nat \<lceil>100 / rat_of_nat (length (items s0))\<rceil>)) s0))
            = [1]"
    using e by (simp add: B_def n_def)
qed

theorem rewrap_collapse_witness:
  "(items ((example_slider 3)\<lparr>index := Some (of_int 103)\<rparr>) \<noteq> []
     \<and> index ((example_slider 3)\<lparr>index := Some (of_int 103)\<rparr>) = Some (of_int 103)
     \<and> rewrap_bound (of_nat (length (items ((example_slider 3)\<lparr>index := Some (of_int 103)\<rparr>))))
          < \<bar>rat_of_int 103\<bar>)
   \<and> index (update ((example_slider 3)\<lparr>index := Some (of_int 103)\<rparr>)) = Some 1
   \<and> flagged ''in-view'' (items (update ((example_slider 3)\<lparr>index := Some (of_int 103)\<rparr>))) = [1]
   \<and> (Slider3D (\<lambda>sel. None) (Elem (plain_root 3)) [] =
         (Inr (example_slider 3), bindEvents (init_fields (plain_root 3)) [])
        \<and> 2 \<le> length (items (example_slider 3)))
   \<and> index ((next_js ^^ 102) (example_slider 3)) = Some 102
   \<and> index ((next_js ^^ 103) (example_slider 3)) = Some 1
   \<and> flagged ''in-view'' (items ((next_js ^^ 103) (example_slider 3))) = [1]"
proof -
  let ?s = "(example_slider 3)\<lparr>index := Some (of_int 103)\<rparr>"
  have c: "\<lceil>100 / (3::rat)\<rceil> = 34" by (simp add: ceiling_eq_iff)
  have B: "length (items (example_slider 3)) * nat \<lceil>100 / rat_of_nat (length (items (example_slider 3)))\<rceil>
             = 102"
    by (simp add: c)
  have h1: "items ?s \<noteq> [] \<and> index ?s = Some (of_int 103)
     \<and> rewrap_bound (of_nat (length (items ?s))) < \<bar>rat_of_int 103\<bar>"
    using example_slider_items[of 3] by (simp add: rewrap_bound_def c)
  have h2: "Slider3D (\<lambda>sel. None) (Elem (plain_root 3)) [] =
         (Inr (example_slider 3), bindEvents (init_fields (plain_root 3)) [])
        \<and> 2 \<le> length (items (example_slider 3))"
    by (simp add: example_slider_constructed)
  note t = rewrap_collapse[where s = "?s" and k = 103 and qs = "\<lambda>sel. None"
      and arg = "Elem (plain_root 3)" and ls = "[]" and ?s0.0 = "example_slider 3"
      and ls' = "bindEvents (init_fields (plain_root 3)) []"]
  from t h1 have "index (update ?s) = Some (of_int (103 mod int (length (items ?s))))
      \<and> flagged ''in-view'' (items (update ?s)) = [nat (103 mod int (length (items ?s)))]"
    by blast
  then have c1: "index (update ?s) = Some 1 \<and> flagged ''in-view'' (items (update ?s)) = [1]"
    by simp
  from t h2 have "index ((next_js ^^ (length (items (example_slider 3))
          * nat \<lceil>100 / rat_of_nat (length (items (example_slider 3)))\<rceil>)) (example_slider 3))
            = Some (of_int ((if length (items (example_slider 3)) = 2 then - 1 else 1)
                 * int (length (items (example_slider 3))
                    * nat \<lceil>100 / rat_of_nat (length (items (example_slider 3)))\<rceil>)))
      \<and> index ((next_js ^^ Suc (length (items (example_slider 3))
          * nat \<lceil>100 / rat_of_nat (length (items (example_slider 3)))\<rceil>)) (example_slider 3))
            = Some 1
      \<and> flagged ''in-view'' (items ((next_js ^^ Suc (length (items (example_slider 3))
          * nat \<lceil>100 / rat_of_nat (length (items (example_slider 3)))\<rceil>)) (example_slider 3)))
            = [1]"
    by blast
  then have c2: "index ((next_js ^^ 102) (example_slider 3)) = Some 102
      \<and> index ((next_js ^^ 103) (example_slider 3)) = Some 1
      \<and> flagged ''in-view'' (items ((next_js ^^ 103) (example_slider 3))) = [1]"
    unfolding B by (simp del: funpow.simps)
  from h1 c1 h2 c2 show ?thesis by blast
qed

text \<open>
  Claim C5, as amended. With at least one item and any starting state whose index is an
  integer \<open>a\<close>, calling \<^verbatim>\<open>next()\<close> exactly \<open>N\<close> times leaves \<^verbatim>\<open>in-view\<close> on exactly the item at
  position \<open>a mod N\<close>, the item that a plain \<^verbatim>\<open>update()\<close> of the starting state marks, and
  leaves an index congruent to \<open>a\<close> modulo \<open>N\<close>. The index has increased by exactly \<open>N\<close> when
  there are at least three items and both \<open>a\<close> and \<open>a + N\<close> are within the rewrap bound
  \<open>N * ceil(100 / N)\<close>.
\<close>

theorem next_cycle:
  assumes "items s \<noteq> []" "index s = Some (of_int a)"
  shows "(\<exists>k. index ((next_js ^^ length (items s)) s) = Some (of_int k)
            \<and> k mod int (length (items s)) = a mod int (length (items s)))
         \<and> flagged ''in-view'' (items ((next_js ^^ length (items s)) s))
             = [nat (a mod int (length (items s)))]
         \<and> flagged ''in-view'' (items ((next_js ^^ length (items s)) s))
             = flagged ''in-view'' (items (update s))
         \<and> (3 \<le> length (items s)
              \<and> - rewrap_bound (of_nat (length (items s))) \<le> of_int a
              \<and> of_int (a + int (length (items s))) \<le> rewrap_bound (of_nat (length (items s)))
              \<longrightarrow> index ((next_js ^^ length (items s)) s) = Some (of_int (a + int (length (items s)))))"
proof -
  let ?n = "length (items s)"
  obtain j where j: "?n = Suc j" using assms(1) by (cases "items s") auto
  obtain k where k: "index ((next_js ^^ Suc j) s) = Some (of_int k)"
      "k mod int ?n = (a + 1 + int j) mod int ?n"
      "flagged ''in-view'' (items ((next_js ^^ Suc j) s)) = [nat (k mod int ?n)]"
    using funpow_next_js_post[OF assms, of j] by blast
  have e: "a + 1 + int j = a + int ?n" using j by simp
  have "(a + int ?n) mod int ?n = a mod int ?n" by simp
  then have m: "k mod int ?n = a mod int ?n" by (simp only: k(2) e)
  have p1: "\<exists>k. index ((next_js ^^ ?n) s) = Some (of_int k) \<and> k mod int ?n = a mod int ?n"
    using k(1) m unfolding j[symmetric] by blast
  have p2: "flagged ''in-view'' (items ((next_js ^^ ?n) s)) = [nat (a mod int ?n)]"
    using k(3) m unfolding j[symmetric] by simp
  have p3: "flagged ''in-view'' (items ((next_js ^^ ?n) s)) = flagged ''in-view'' (items (update s))"
    by (simp only: p2 flagged_in_view_update[OF assms])
  have p4: "index ((next_js ^^ ?n) s) = Some (of_int (a + int ?n))"
    if h: "3 \<le> ?n" "- rewrap_bound (of_nat ?n) \<le> of_int a"
      "of_int (a + int ?n) \<le> rewrap_bound (of_nat ?n)"
  proof -
    have d: "(1::int) = (if ?n = 2 then - 1 else 1)" using h(1) by simp
    have b: "\<bar>rat_of_int (a + 1 * int i)\<bar> \<le> rewrap_bound (of_nat ?n)" if "i \<le> ?n" for i
    proof -
      have "rat_of_int a \<le> of_int (a + int i)" by simp
      moreover have "rat_of_int (a + int i) \<le> of_int (a + int ?n)" using that by simp
      ultimately show ?thesis using h(2,3) by simp
    qed
    have "2 \<le> ?n" using h(1) by simp
    then have "index ((next_js ^^ ?n) s) = Some (of_int (a + 1 * int ?n))"
      using funpow_next_js_in_bound[OF _ assms(2) d b] by blast
    then show ?thesis by simp
  qed
  from p1 p2 p3 p4 show ?thesis by blast
qed

theorem next_cycle_witness:
  "items (example_slider 3) \<noteq> [] \<and> index (example_slider 3) = Some (of_int 0)
   \<and> (3 \<le> length (items (example_slider 3))
        \<and> - rewrap_bound (of_nat (length (items (example_slider 3)))) \<le> of_int 0
        \<and> of_int (0 + int (length (items (example_slider 3))))
              \<le> rewrap_bound (of_nat (length (items (example_slider 3)))))
   \<and> flagged ''in-view'' (items ((next_js ^^ length (items (example_slider 3))) (example_slider 3)))
        = [nat (0 mod int (length (items (example_slider 3))))]
   \<and> index ((next_js ^^ length (items (example_slider 3))) (example_slider 3))
        = Some (of_int (0 + int (length (items (example_slider 3)))))"
proof -
  have a: "items (example_slider 3) \<noteq> []" by (rule example_slider_items) simp
  have b: "index (example_slider 3) = Some (of_int 0)" by (rule example_slider_index)
  have c: "3 \<le> length (items (example_slider 3))
        \<and> - rewrap_bound (of_nat (length (items (example_slider 3)))) \<le> of_int 0
        \<and> of_int (0 + int (length (items (example_slider 3))))
              \<le> rewrap_bound (of_nat (length (items (example_slider 3))))"
    by code_simp
  note t = next_cycle[OF a b]
  from t have d: "flagged ''in-view''
      (items ((next_js ^^ length (items (example_slider 3))) (example_slider 3)))
        = [nat (0 mod int (length (items (example_slider 3))))]"
    by blast
  from t c have e: "index ((next_js ^^ length (items (example_slider 3))) (example_slider 3))
        = Some (of_int (0 + int (length (items (example_slider 3)))))"
    by blast
  show ?thesis by (rule conjI[OF a conjI[OF b conjI[OF c conjI[OF d e]]]])
qed

theorem next_cycle_counterexample:
  "index (example_slider 2) = Some 0
   \<and> index ((next_js ^^ length (items (example_slider 2))) (example_slider 2)) = Some (- 2)
   \<and> index ((next_js ^^ length (items (example_slider 2))) (example_slider 2))
        \<noteq> Some (0 + of_nat (length (items (example_slider 2))))
   \<and> index (example_slider 1) = Some 0
   \<and> index ((next_js ^^ length (items (example_slider 1))) (example_slider 1)) = Some 0
   \<and> index ((next_js ^^ length (items (example_slider 1))) (example_slider 1))
        \<noteq> Some (0 + of_nat (length (items (example_slider 1))))
   \<and> index ((next_js ^^ length (items (example_slider 3))) ((example_slider 3)\<lparr>index := Some 100\<rparr>))
        = Some 1
   \<and> index ((next_js ^^ length (items (example_slider 3))) ((example_slider 3)\<lparr>index := Some 100\<rparr>))
        \<noteq> Some (100 + of_nat (length (items (example_slider 3))))"
proof -
  have a0: "index (example_slider 2) = Some 0" and b0: "index (example_slider 1) = Some 0"
    using example_slider_index by simp_all
  have a: "index ((next_js ^^ length (items (example_slider 2))) (example_slider 2)) = Some (- 2)"
    unfolding example_slider_length by code_simp
  have b: "index ((next_js ^^ length (items (example_slider 1))) (example_slider 1)) = Some 0"
    unfolding example_slider_length by code_simp
  have c: "index ((next_js ^^ length (items (example_slider 3)))
             ((example_slider 3)\<lparr>index := Some 100\<rparr>)) = Some 1"
    unfolding example_slider_length by code_simp
  show ?thesis unfolding a b c using a0 b0 by simp
qed

text \<open>
  Claim C6. Constructing a carousel with a selector string that matches no element, or with
  an argument that is neither a string nor an element, raises an error; whenever the
  constructor raises, it is in one of these two cases, the registered listeners are the
  ones registered before, and no carousel exists (the result is the error alone). A
  successful construction, by contrast, registers at least six listeners.
\<close>

theorem construction_failure:
  "(qs sel = None \<longrightarrow> Slider3D qs (Str sel) ls = (Inl (NoElementMatches sel), ls))
   \<and> Slider3D qs Other ls = (Inl InvalidRoot, ls)
   \<and> (\<forall>e ls'. Slider3D qs arg ls = (Inl e, ls') \<longrightarrow>
          ls' = ls \<and> (arg = Other \<or> (\<exists>sel. arg = Str sel \<and> qs sel = None)))
   \<and> (\<forall>s ls'. Slider3D qs arg ls = (Inr s, ls') \<longrightarrow> length ls + 6 \<le> length ls')"
proof (intro conjI allI impI)
  assume "qs sel = None"
  then show "Slider3D qs (Str sel) ls = (Inl (NoElementMatches sel), ls)"
    by (simp add: Slider3D_def resolve_root_def)
next
  show "Slider3D qs Other ls = (Inl InvalidRoot, ls)"
    by (simp add: Slider3D_def resolve_root_def)
next
  fix e ls'
  assume a: "Slider3D qs arg ls = (Inl e, ls')"
  then show "ls' = ls"
    by (auto simp: Slider3D_def split: sum.splits)
  from a show "arg = Other \<or> (\<exists>sel. arg = Str sel \<and> qs sel = None)"
    by (cases arg) (auto simp: Slider3D_def resolve_root_def split: sum.splits option.splits)
next
  fix s ls'
  assume "Slider3D qs arg ls = (Inr s, ls')"
  then obtain el where "ls' = bindEvents (init_fields el) ls"
    using constructed by blast
  then show "length ls + 6 \<le> length ls'" by (simp add: length_bindEvents)
qed

theorem construction_failure_witness:
  "(\<lambda>sel. None :: html_element option) ''.slider-3d'' = None
   \<and> Slider3D (\<lambda>sel. None) (Str ''.slider-3d'') [(Document, ''DOMContentLoaded'')]
        = (Inl (NoElementMatches ''.slider-3d''), [(Document, ''DOMContentLoaded'')])
   \<and> Slider3D (\<lambda>sel. None) Other [(Document, ''DOMContentLoaded'')]
        = (Inl InvalidRoot, [(Document, ''DOMContentLoaded'')])
   \<and> length (snd (Slider3D (\<lambda>sel. None) (Elem (plain_root 3)) [(Document, ''DOMContentLoaded'')]))
        = 12"
proof -
  have a: "(\<lambda>sel. None :: html_element option) ''.slider-3d'' = None" by simp
  note t = construction_failure[where qs = "\<lambda>sel. None" and sel = "''.slider-3d''"
      and ls = "[(Document, ''DOMContentLoaded'')]"]
  from t a have b: "Slider3D (\<lambda>sel. None) (Str ''.slider-3d'') [(Document, ''DOMContentLoaded'')]
        = (Inl (NoElementMatches ''.slider-3d''), [(Document, ''DOMContentLoaded'')])"
    by blast
  from t have c: "Slider3D (\<lambda>sel. None) Other [(Document, ''DOMContentLoaded'')]
        = (Inl InvalidRoot, [(Document, ''DOMContentLoaded'')])"
    by blast
  have d: "length (snd (Slider3D (\<lambda>sel. None) (Elem (plain_root 3)) [(Document, ''DOMContentLoaded'')]))
        = 12"
    by (simp add: Slider3D_def resolve_root_def bindEvents_def init_fields_def plain_root_def)
  show ?thesis by (rule conjI[OF a conjI[OF b conjI[OF c d]]])
qed

text \<open>
  Claim C7. Calling \<^verbatim>\<open>update()\<close> twice in succession, with no change to the index in
  between, leaves the carousel exactly as the first call left it: the same items carry
  \<^verbatim>\<open>in-view\<close>, \<^verbatim>\<open>next-item\<close> and \<^verbatim>\<open>previous-item\<close>, the same indicator carries
  \<^verbatim>\<open>active\<close>, and the index and the published property are the same. This holds in every
  state, also with no items and with an index that is not an integer.
\<close>

theorem update_idempotent: "update (update s) = update s"
proof (rule slider.equality)
  show "items (update (update s)) = items (update s)"
    by (rule items_update_cong)
      (simp_all only: length_items_update mod_js_index_update cleared_items_update)
  show "indicators (update (update s)) = indicators (update s)"
    by (rule indicators_update_cong)
      (simp_all only: length_items_update mod_js_index_update cleared_indicators_update)
  show "index (update (update s)) = index (update s)" by (rule index_update_update)
  show "view_index (update (update s)) = view_index (update s)"
    by (simp add: index_update_update)
qed simp_all



text \<open>
  Claim C9. For a card with one inner content region of scroll height \<open>h\<close>: when the card
  does not carry \<^verbatim>\<open>expanded\<close>, an accepted click adds the class and sets the region's
  \<^verbatim>\<open>max-height\<close> to \<open>h\<close> followed by \<^verbatim>\<open>px\<close>, and a second click restores the class list and
  sets \<^verbatim>\<open>max-height\<close> to \<^verbatim>\<open>0px\<close>; when the card carries the class, the click removes it and
  sets \<^verbatim>\<open>max-height\<close> to \<^verbatim>\<open>0px\<close>. Both click handlers toggle the card on an accepted click.
\<close>

theorem toggleCard_click:
  assumes "variables c = [r]"
  shows "(''expanded'' \<notin> classes c \<longrightarrow>
            toggleCard c = c\<lparr>classes := insert ''expanded'' (classes c),
                             variables := [r\<lparr>max_height := toString (scrollHeight r) @ ''px''\<rparr>]\<rparr>
            \<and> classes (toggleCard (toggleCard c)) = classes c
            \<and> map max_height (variables (toggleCard (toggleCard c))) = [''0px''])
         \<and> (''expanded'' \<in> classes c \<longrightarrow>
            toggleCard c = c\<lparr>classes := classes c - {''expanded''},
                             variables := [r\<lparr>max_height := ''0px''\<rparr>]\<rparr>)
         \<and> on_click c = toggleCard c
         \<and> on_click_guarded (Some i) i c = toggleCard c"
  using assms
  by (auto simp: toggleCard_def expandCard_def collapseCard_def on_click_def
      on_click_guarded_def shouldHandleClick_def)

theorem toggleCard_click_witness:
  "variables example_card = [\<lparr>scrollHeight = 120, max_height = []\<rparr>]
   \<and> ''expanded'' \<notin> classes example_card
   \<and> toggleCard example_card
        = \<lparr>classes = {''expanded'', ''concept-card''},
           variables = [\<lparr>scrollHeight = 120, max_height = ''120px''\<rparr>]\<rparr>
   \<and> classes (toggleCard (toggleCard example_card)) = {''concept-card''}
   \<and> map max_height (variables (toggleCard (toggleCard example_card))) = [''0px'']"
proof -
  have a: "variables example_card = [\<lparr>scrollHeight = 120, max_height = []\<rparr>]"
    by (simp add: example_card_def)
  have b: "''expanded'' \<notin> classes example_card" by (simp add: example_card_def)
  have s: "toString 120 = ''120''" by code_simp
  note t = toggleCard_click[OF a, of 0]
  from t b have "toggleCard example_card
      = example_card\<lparr>classes := insert ''expanded'' (classes example_card),
          variables := [\<lparr>scrollHeight = 120, max_height = []\<rparr>
             \<lparr>max_height := toString (scrollHeight \<lparr>scrollHeight = 120, max_height = []\<rparr>) @ ''px''\<rparr>]\<rparr>"
    by blast
  then have c: "toggleCard example_card
        = \<lparr>classes = {''expanded'', ''concept-card''},
           variables = [\<lparr>scrollHeight = 120, max_height = ''120px''\<rparr>]\<rparr>"
    by (simp add: example_card_def s)
  from t b have "classes (toggleCard (toggleCard example_card)) = classes example_card"
    and e: "map max_height (variables (toggleCard (toggleCard example_card))) = [''0px'']"
    by blast+
  then have d: "classes (toggleCard (toggleCard example_card)) = {''concept-card''}"
    by (simp add: example_card_def)
  show ?thesis by (rule conjI[OF a conjI[OF b conjI[OF c conjI[OF d e]]]])
qed

text \<open>
  Claim C10. For a carousel with at least one item, after construction and after every
  \<^verbatim>\<open>goTo\<close>, \<^verbatim>\<open>next\<close> or \<^verbatim>\<open>prev\<close> call, the index is a number of absolute value at most
  \<open>N * ceil(100 / N)\<close>, and it is the number published to the styling property. Each single
  call establishes the bound from any state whose index is a number, for any target.
\<close>

theorem index_bounded:
  "(Slider3D qs arg ls = (Inr s0, ls') \<and> items s0 \<noteq> []
      \<longrightarrow> (\<exists>x. index (run cs s0) = Some x
             \<and> \<bar>x\<bar> \<le> rewrap_bound (of_nat (length (items s0)))
             \<and> view_index (run cs s0) = Some x))
   \<and> (items s \<noteq> [] \<and> index s = Some i
      \<longrightarrow> (\<exists>y. index (goTo t s) = Some y
             \<and> \<bar>y\<bar> \<le> rewrap_bound (of_nat (length (items s)))
             \<and> view_index (goTo t s) = Some y)
          \<and> (\<exists>y. index (next_js s) = Some y
             \<and> \<bar>y\<bar> \<le> rewrap_bound (of_nat (length (items s)))
             \<and> view_index (next_js s) = Some y)
          \<and> (\<exists>y. index (prev_js s) = Some y
             \<and> \<bar>y\<bar> \<le> rewrap_bound (of_nat (length (items s)))
             \<and> view_index (prev_js s) = Some y)
          \<and> (\<exists>y. index (update s) = Some y
             \<and> \<bar>y\<bar> \<le> rewrap_bound (of_nat (length (items s)))
             \<and> view_index (update s) = Some y))"
proof (intro conjI impI; (elim conjE)?)
  assume "Slider3D qs arg ls = (Inr s0, ls')" "items s0 \<noteq> []"
  then show "\<exists>x. index (run cs s0) = Some x
             \<and> \<bar>x\<bar> \<le> rewrap_bound (of_nat (length (items s0)))
             \<and> view_index (run cs s0) = Some x"
    using reachable_post[of qs arg ls s0 ls' cs] by auto
next
  assume a: "items s \<noteq> []" "index s = Some i"
  show "\<exists>y. index (goTo t s) = Some y
             \<and> \<bar>y\<bar> \<le> rewrap_bound (of_nat (length (items s)))
             \<and> view_index (goTo t s) = Some y"
    by (rule goTo_bounded[OF a])
  show "\<exists>y. index (next_js s) = Some y
             \<and> \<bar>y\<bar> \<le> rewrap_bound (of_nat (length (items s)))
             \<and> view_index (next_js s) = Some y"
    using goTo_bounded[OF a, of "i + 1"] by (simp add: next_js_def a(2))
  show "\<exists>y. index (prev_js s) = Some y
             \<and> \<bar>y\<bar> \<le> rewrap_bound (of_nat (length (items s)))
             \<and> view_index (prev_js s) = Some y"
    using goTo_bounded[OF a, of "i - 1"] by (simp add: prev_js_def a(2))
  show "\<exists>y. index (update s) = Some y
             \<and> \<bar>y\<bar> \<le> rewrap_bound (of_nat (length (items s)))
             \<and> view_index (update s) = Some y"
    by (rule update_bounded_published[OF a])
qed

theorem index_bounded_witness:
  "(Slider3D (\<lambda>sel. None) (Elem (plain_root 3)) [] =
      (Inr (example_slider 3), bindEvents (init_fields (plain_root 3)) [])
    \<and> items (example_slider 3) \<noteq> [])
   \<and> (\<exists>x. index (run [Next, GoTo 5, Prev] (example_slider 3)) = Some x
         \<and> \<bar>x\<bar> \<le> rewrap_bound (of_nat (length (items (example_slider 3))))
         \<and> view_index (run [Next, GoTo 5, Prev] (example_slider 3)) = Some x)
   \<and> index (example_slider 3) = Some 0
   \<and> (\<exists>y. index (goTo (7 / 2) (example_slider 3)) = Some y
         \<and> \<bar>y\<bar> \<le> rewrap_bound (of_nat (length (items (example_slider 3))))
         \<and> view_index (goTo (7 / 2) (example_slider 3)) = Some y)
   \<and> rewrap_bound (of_nat (length (items (example_slider 3)))) = 102"
proof -
  have a: "Slider3D (\<lambda>sel. None) (Elem (plain_root 3)) [] =
      (Inr (example_slider 3), bindEvents (init_fields (plain_root 3)) [])
    \<and> items (example_slider 3) \<noteq> []"
    using example_slider_items[of 3] by (simp add: example_slider_constructed)
  have i: "index (example_slider 3) = Some 0" using example_slider_index[of 3] by simp
  have c: "rewrap_bound (of_nat (length (items (example_slider 3)))) = 102" by code_simp
  note t = index_bounded[where qs = "\<lambda>sel. None" and arg = "Elem (plain_root 3)" and ls = "[]"
      and ?s0.0 = "example_slider 3" and ls' = "bindEvents (init_fields (plain_root 3)) []"
      and cs = "[Next, GoTo 5, Prev]" and s = "example_slider 3" and i = 0 and t = "7 / 2"]
  from t a have b: "\<exists>x. index (run [Next, GoTo 5, Prev] (example_slider 3)) = Some x
         \<and> \<bar>x\<bar> \<le> rewrap_bound (of_nat (length (items (example_slider 3))))
         \<and> view_index (run [Next, GoTo 5, Prev] (example_slider 3)) = Some x"
    by blast
  from t a i have d: "\<exists>y. index (goTo (7 / 2) (example_slider 3)) = Some y
         \<and> \<bar>y\<bar> \<le> rewrap_bound (of_nat (length (items (example_slider 3))))
         \<and> view_index (goTo (7 / 2) (example_slider 3)) = Some y"
    by blast
  show ?thesis by (rule conjI[OF a conjI[OF b conjI[OF i conjI[OF d c]]]])
qed

end
